theory Spec2Isabelle
  imports Main
begin

section \<open>Values, functions and batches\<close>

text \<open>
  The engine of \<^verbatim>\<open>tiny-reactive-dataflow.js\<close> (the exported \<^verbatim>\<open>dataflow\<close> object)
  is embedded with explicit state passing. JavaScript values are a datatype; a plain
  object is its list of own properties, kept in a canonical order so that deep equality
  of two values is equality of their representations. A Promise (any thenable) is an
  object whose property \<^verbatim>\<open>then\<close> is a function.
\<close>

type_synonym name = string

datatype jsval =
    JUndefined
  | JNull
  | JBool bool
  | JNum int
  | JStr string
  | JFunction nat
  | JObject "(string \<times> jsval) list"

text \<open>A batch is the argument of \<^verbatim>\<open>set\<close>: its entries in \<^verbatim>\<open>Object.entries\<close> order.\<close>

type_synonym batch = "(name \<times> jsval) list"

text \<open>
  What a call \<^verbatim>\<open>fn(...args)\<close> of a node function does, as far as the engine can see:
  it returns a value or a promise that is fulfilled, returns a promise that is rejected
  (an \<^verbatim>\<open>async\<close> function that throws), throws synchronously (a plain function that
  throws), or returns a promise that never settles. Besides, it may call
  \<^verbatim>\<open>dataflow.set\<close> any number of times; those batches are the second component.
\<close>

datatype outcome = Fulfilled jsval | Rejected jsval | Throws jsval | Pending

text \<open>
  A function object: \<open>addr\<close> is its identity (the engine stores \<^verbatim>\<open>numDirtyDeps\<close> on
  the object), \<open>fname\<close> is \<^verbatim>\<open>fn.name\<close>, \<open>fparams\<close> is what
  \<^verbatim>\<open>getParamNames(fn)\<close> returns for it.
\<close>

record jsfunction =
  addr :: nat
  fname :: name
  fparams :: "name list"
  body :: "jsval list \<Rightarrow> outcome \<times> batch list"

record errInfo =
  functionName :: name
  functionParams :: "jsval list"
  reason :: jsval

datatype abort =
    TypeError
  | QueueIsEmpty
  | AlreadyRegistered name
  | CycleDetected "name list"
  | ValueIsPromise name
  | ProducerThrew jsval
  | NeverSettles

text \<open>
  \<open>NeverSettles\<close> is not an exception: it stands for
  \<^verbatim>\<open>await Promise.allSettled(promises)\<close> never resuming. Every other abort is an
  exception leaving \<^verbatim>\<open>set\<close>, whose promise is then rejected. An abort carries the
  state at that moment, since the mutations made before it stay.
\<close>

subsection \<open>The queue of \<^verbatim>\<open>newQueue\<close>\<close>

record queue =
  headIdx :: nat
  tailIdx :: nat
  elts :: "nat \<Rightarrow> batch option"

definition newQueue :: queue where
  "newQueue = \<lparr>headIdx = 0, tailIdx = 0, elts = (\<lambda>_. None)\<rparr>"

definition enqueue :: "batch \<Rightarrow> queue \<Rightarrow> queue" where
  "enqueue elt q = q\<lparr>elts := (elts q)(tailIdx q := Some elt), tailIdx := tailIdx q + 1\<rparr>"

text \<open>
  \<^verbatim>\<open>dequeue\<close> throws on an empty queue and else returns \<^verbatim>\<open>elts[headIdx++]\<close>. A slot
  below \<^verbatim>\<open>tailIdx\<close> has always been written by \<^verbatim>\<open>enqueue\<close>; for a slot never written
  the code would return \<^verbatim>\<open>undefined\<close> and throw a TypeError at its next statement,
  \<^verbatim>\<open>Object.keys(updateBatch)\<close>, which the model gives here.
\<close>

definition dequeue :: "queue \<Rightarrow> abort + (batch \<times> queue)" where
  "dequeue q =
     (if headIdx q = tailIdx q then Inl QueueIsEmpty
      else (case elts q (headIdx q) of
              None \<Rightarrow> Inl TypeError
            | Some elt \<Rightarrow> Inr (elt, q\<lparr>headIdx := headIdx q + 1\<rparr>)))"

definition isEmpty :: "queue \<Rightarrow> bool" where
  "isEmpty q = (tailIdx q = headIdx q)"

definition size_queue :: "queue \<Rightarrow> int" where
  "size_queue q = int (tailIdx q) - int (headIdx q)"

subsection \<open>The engine state\<close>

text \<open>
  \<open>trace\<close> is a ghost field: the engine does not have it. It records, in order, the
  batches enqueued and dequeued, the producers called and the end of each batch's
  wavefront loop, so that statements about order can be made.
\<close>

datatype event =
    Enqueued batch
  | Dequeued batch
  | Invoked name "jsval list"
  | Drained

record dataflow =
  nameToFn :: "(name \<times> jsfunction) list"
  nodeToUpstreamNodes :: "(name \<times> name list) list"
  nodeToDownstreamNodes :: "(name \<times> name list) list"
  updateBatches :: queue
  value' :: "name \<Rightarrow> jsval option"
  valueChanged :: "name \<Rightarrow> bool option"
  inProgress :: bool
  errors :: "errInfo list"
  numDirtyDeps :: "nat \<Rightarrow> int"
  trace :: "event list"

definition dataflow0 :: dataflow where
  "dataflow0 =
     \<lparr>nameToFn = [], nodeToUpstreamNodes = [], nodeToDownstreamNodes = [],
      updateBatches = newQueue, value' = (\<lambda>_. None), valueChanged = (\<lambda>_. None),
      inProgress = False, errors = [], numDirtyDeps = (\<lambda>_. 0), trace = []\<rparr>"

text \<open>
  \<^verbatim>\<open>dataflow.value\<close> and \<^verbatim>\<open>dataflow.valueChanged\<close> are plain objects (\<^verbatim>\<open>{}\<close>), so
  a read \<^verbatim>\<open>obj[name]\<close> of a name that is not an own property goes to
  \<^verbatim>\<open>Object.prototype\<close>. Its data properties are all functions; an assignment
  \<^verbatim>\<open>obj[name] = v\<close> to one of these names creates an own property, as for any other
  name. Its accessor \<^verbatim>\<open>__proto__\<close> reads as the prototype object itself, which has no
  enumerable property. The setter of \<^verbatim>\<open>__proto__\<close> ignores a value that is neither an
  object nor \<^verbatim>\<open>null\<close>, so the flags object, to which only booleans are assigned, never
  gets an own flag of that name. For the cached values the setter is not modelled: an
  assignment \<^verbatim>\<open>dataflow.value["__proto__"] = v\<close> is recorded like any other, so the
  model follows the engine for a name \<^verbatim>\<open>__proto__\<close> only as long as no value is set for
  it.
\<close>

definition objectPrototype :: "(name \<times> jsval) list" where
  "objectPrototype =
     [(''constructor'', JFunction 100), (''__defineGetter__'', JFunction 101),
      (''__defineSetter__'', JFunction 102), (''hasOwnProperty'', JFunction 103),
      (''__lookupGetter__'', JFunction 104), (''__lookupSetter__'', JFunction 105),
      (''isPrototypeOf'', JFunction 106), (''propertyIsEnumerable'', JFunction 107),
      (''toString'', JFunction 108), (''valueOf'', JFunction 109),
      (''toLocaleString'', JFunction 110), (''__proto__'', JObject [])]"

text \<open>\<open>inherited name\<close>: \<^verbatim>\<open>name\<close> is a property of \<^verbatim>\<open>Object.prototype\<close>.\<close>

definition inherited :: "name \<Rightarrow> bool" where
  "inherited name = (map_of objectPrototype name \<noteq> None)"

text \<open>
  \<^verbatim>\<open>dataflow.value[name]\<close>: the own property, else the inherited one, else
  \<^verbatim>\<open>undefined\<close>.
\<close>

definition readValue :: "dataflow \<Rightarrow> name \<Rightarrow> jsval" where
  "readValue st name =
     (case value' st name of
        Some v \<Rightarrow> v
      | None \<Rightarrow> (case map_of objectPrototype name of None \<Rightarrow> JUndefined | Some f \<Rightarrow> f))"

text \<open>
  \<^verbatim>\<open>if (dataflow.valueChanged[paramName])\<close>: an own flag is \<^verbatim>\<open>true\<close> or \<^verbatim>\<open>false\<close>;
  without an own flag an inherited function or object is truthy and \<^verbatim>\<open>undefined\<close> is
  not. For \<^verbatim>\<open>__proto__\<close> the assignments of flags had no effect.
\<close>

definition readChanged :: "dataflow \<Rightarrow> name \<Rightarrow> bool" where
  "readChanged st name =
     (if name = ''__proto__'' then True
      else case valueChanged st name of Some flag \<Rightarrow> flag | None \<Rightarrow> inherited name)"

text \<open>
  Modelled from the spec: Lodash's \<^verbatim>\<open>_.isEqual\<close> is imported, not part of the
  repository; the spec calls it deep structural equality.
\<close>

definition isEqual :: "jsval \<Rightarrow> jsval \<Rightarrow> bool" where
  "isEqual a b = (a = b)"

subsection \<open>The Promise guard of \<^verbatim>\<open>set\<close>\<close>

definition typeof :: "jsval \<Rightarrow> string" where
  "typeof v =
     (case v of
        JUndefined \<Rightarrow> ''undefined''
      | JNull \<Rightarrow> ''object''
      | JBool _ \<Rightarrow> ''boolean''
      | JNum _ \<Rightarrow> ''number''
      | JStr _ \<Rightarrow> ''string''
      | JFunction _ \<Rightarrow> ''function''
      | JObject _ \<Rightarrow> ''object'')"

text \<open>\<^verbatim>\<open>value.then\<close>: reading a property of \<^verbatim>\<open>null\<close> or \<^verbatim>\<open>undefined\<close> throws.\<close>

definition getThen :: "jsval \<Rightarrow> abort + jsval" where
  "getThen v =
     (case v of
        JUndefined \<Rightarrow> Inl TypeError
      | JNull \<Rightarrow> Inl TypeError
      | JObject props \<Rightarrow>
          (case map_of props ''then'' of None \<Rightarrow> Inr JUndefined | Some t \<Rightarrow> Inr t)
      | _ \<Rightarrow> Inr JUndefined)"

text \<open>
  \<^verbatim>\<open>if (typeof value === "object" && typeof value.then === "function") throw ...\<close>;
  \<open>None\<close> when the guard lets the value through.
\<close>

definition promiseGuard :: "name \<Rightarrow> jsval \<Rightarrow> abort option" where
  "promiseGuard name v =
     (if typeof v = ''object'' then
        (case getThen v of
           Inl e \<Rightarrow> Some e
         | Inr t \<Rightarrow> if typeof t = ''function'' then Some (ValueIsPromise name) else None)
      else None)"

section \<open>Registration\<close>

text \<open>
  \<^verbatim>\<open>nodeToDownstreamNodes.get(usName)\<close>, created when absent, then
  \<^verbatim>\<open>dsFns.push(fnName)\<close>.
\<close>

fun pushDownstream :: "name \<Rightarrow> name \<Rightarrow> (name \<times> name list) list \<Rightarrow> (name \<times> name list) list" where
  "pushDownstream usName fnName [] = [(usName, [fnName])]"
| "pushDownstream usName fnName ((k, dsFns) # rest) =
     (if k = usName then (k, dsFns @ [fnName]) # rest
      else (k, dsFns) # pushDownstream usName fnName rest)"

text \<open>
  The inner \<^verbatim>\<open>register(fn, fnName)\<close>. Its first check, that \<open>fn\<close> is a function, is
  met by the type of \<open>fn\<close>.
\<close>

definition register1 :: "jsfunction \<Rightarrow> name \<Rightarrow> dataflow \<Rightarrow> (abort \<times> dataflow) + dataflow" where
  "register1 fn fnName st =
     (if fnName \<in> fst ` set (nameToFn st) then Inl (AlreadyRegistered fnName, st)
      else Inr (st\<lparr>nameToFn := nameToFn st @ [(fnName, fn)],
                   nodeToUpstreamNodes := nodeToUpstreamNodes st @ [(fnName, fparams fn)],
                   nodeToDownstreamNodes :=
                     fold (\<lambda>usName ds. pushDownstream usName fnName ds) (fparams fn)
                       (nodeToDownstreamNodes st)\<rparr>))"

text \<open>\<^verbatim>\<open>dataflow.register({name: fn, ...})\<close>, the entries in order.\<close>

fun registerObject :: "(name \<times> jsfunction) list \<Rightarrow> dataflow \<Rightarrow> (abort \<times> dataflow) + dataflow" where
  "registerObject [] st = Inr st"
| "registerObject ((fnName, fn) # rest) st =
     (case register1 fn fnName st of
        Inl e \<Rightarrow> Inl e
      | Inr st' \<Rightarrow> registerObject rest st')"

text \<open>\<^verbatim>\<open>dataflow.register(f, g, ...)\<close>: each function under its own name.\<close>

definition registerFns :: "jsfunction list \<Rightarrow> dataflow \<Rightarrow> (abort \<times> dataflow) + dataflow" where
  "registerFns fns st = registerObject (map (\<lambda>fn. (fname fn, fn)) fns) st"

section \<open>The downstream closure and its cycle check\<close>

text \<open>
  The measure for the traversal: the keys of \<^verbatim>\<open>nodeToDownstreamNodes\<close> not yet
  visited. A recursive call is made only for such a key, which is then marked visited.
\<close>

definition unvisited :: "dataflow \<Rightarrow> name list \<Rightarrow> nat" where
  "unvisited st visited =
     length (filter (\<lambda>k. k \<notin> set visited) (map fst (nodeToDownstreamNodes st)))"

lemma unvisited_mono: "set v \<subseteq> set v' \<Longrightarrow> unvisited st v' \<le> unvisited st v"
proof -
  assume a: "set v \<subseteq> set v'"
  have "length (filter (\<lambda>k. k \<notin> set v') xs) \<le> length (filter (\<lambda>k. k \<notin> set v) xs)" for xs :: "name list"
    using a by (induction xs) auto
  then show ?thesis unfolding unvisited_def by blast
qed

lemma unvisited_less:
  assumes "map_of (nodeToDownstreamNodes st) name = Some ds" "name \<notin> set v"
  shows "unvisited st (v @ [name]) < unvisited st v"
proof -
  have in_keys: "name \<in> set (map fst (nodeToDownstreamNodes st))"
    using assms(1) by (metis map_of_eq_None_iff option.distinct(1) set_map)
  have "name \<in> set xs \<Longrightarrow>
        length (filter (\<lambda>k. k \<notin> set (v @ [name])) xs) < length (filter (\<lambda>k. k \<notin> set v) xs)"
    for xs :: "name list"
  proof (induction xs)
    case Nil then show ?case by simp
  next
    case (Cons a xs)
    have le: "length (filter (\<lambda>k. k \<notin> set (v @ [name])) xs) \<le> length (filter (\<lambda>k. k \<notin> set v) xs)"
      by (induction xs) auto
    show ?case
    proof (cases "a = name")
      case True
      then show ?thesis using le assms(2) by simp
    next
      case False
      then have "name \<in> set xs" using Cons.prems by simp
      from Cons.IH[OF this] show ?thesis by simp
    qed
  qed
  from this[OF in_keys] show ?thesis unfolding unvisited_def by blast
qed

text \<open>
  \<^verbatim>\<open>visitNode(name, visited, visitedInPath, fnVisitor)\<close>. The two sets are lists in
  insertion order, which is the order \<^verbatim>\<open>[...visitedInPath]\<close> reads them in; the
  visitor acts on an accumulator, and fails as the code does when it is handed
  \<^verbatim>\<open>undefined\<close>. \<open>visitDownstream\<close> is the \<^verbatim>\<open>for (const dsFnName of dsFnNames)\<close> loop.
\<close>

function visitNode ::
    "dataflow \<Rightarrow> (jsfunction option \<Rightarrow> 'a \<Rightarrow> abort + 'a) \<Rightarrow> name \<Rightarrow>
     name list \<times> name list \<times> 'a \<Rightarrow> (abort \<times> 'a) + (name list \<times> name list \<times> 'a)"
  and visitDownstream ::
    "dataflow \<Rightarrow> (jsfunction option \<Rightarrow> 'a \<Rightarrow> abort + 'a) \<Rightarrow> name list \<Rightarrow>
     name list \<times> name list \<times> 'a \<Rightarrow> (abort \<times> 'a) + (name list \<times> name list \<times> 'a)"
where
  "visitNode st fnVisitor name (visited, visitedInPath, acc) =
     (if name \<in> set visitedInPath then
        Inl (CycleDetected (dropWhile (\<lambda>n. n \<noteq> name) visitedInPath @ [name]), acc)
      else if name \<notin> set visited then
        (case map_of (nodeToDownstreamNodes st) name of
           None \<Rightarrow> Inr (visited @ [name], removeAll name (visitedInPath @ [name]), acc)
         | Some dsFnNames \<Rightarrow>
             (case visitDownstream st fnVisitor dsFnNames
                     (visited @ [name], visitedInPath @ [name], acc) of
                Inl e \<Rightarrow> Inl e
              | Inr (visited', visitedInPath', acc') \<Rightarrow>
                  Inr (visited', removeAll name visitedInPath', acc')))
      else Inr (visited, removeAll name (visitedInPath @ [name]), acc))"
| "visitDownstream st fnVisitor [] s = Inr s"
| "visitDownstream st fnVisitor (dsFnName # rest) (visited, visitedInPath, acc) =
     (case fnVisitor (map_of (nameToFn st) dsFnName) acc of
        Inl e \<Rightarrow> Inl (e, acc)
      | Inr acc1 \<Rightarrow>
          (case visitNode st fnVisitor dsFnName (visited, visitedInPath, acc1) of
             Inl e \<Rightarrow> Inl e
           | Inr s' \<Rightarrow> visitDownstream st fnVisitor rest s'))"
  by pat_completeness auto

termination
proof -
  have visited_mono:
    "visitNode_visitDownstream_dom (Inl (st, fv, name, s)) \<Longrightarrow>
       visitNode st fv name s = Inr s' \<Longrightarrow> set (fst s) \<subseteq> set (fst s')"
    "visitNode_visitDownstream_dom (Inr (st, fv, ds, s)) \<Longrightarrow>
       visitDownstream st fv ds s = Inr s' \<Longrightarrow> set (fst s) \<subseteq> set (fst s')"
    for st :: dataflow and fv :: "jsfunction option \<Rightarrow> 'a \<Rightarrow> abort + 'a" and name ds s s'
  proof (induct st fv name s and st fv ds s arbitrary: s' and s' rule: visitNode_visitDownstream.pinduct)
    case (1 st fnVisitor name visited visitedInPath acc)
    note eq = 1(3)[unfolded visitNode.psimps[OF 1(1)]]
    show ?case
    proof (cases "name \<in> set visitedInPath \<or> name \<in> set visited")
      case True
      then show ?thesis using eq by (auto split: if_splits)
    next
      case False
      show ?thesis
      proof (cases "map_of (nodeToDownstreamNodes st) name")
        case None
        then show ?thesis using eq False by auto
      next
        case (Some ds)
        show ?thesis
        proof (cases "visitDownstream st fnVisitor ds (visited @ [name], visitedInPath @ [name], acc)")
          case (Inl e)
          then show ?thesis using eq False Some by simp
        next
          case (Inr r)
          from 1(2)[OF _ _ Some Inr] False have "set (visited @ [name]) \<subseteq> set (fst r)" by simp
          moreover have "fst s' = fst r" using eq False Some Inr by (auto split: prod.splits)
          ultimately show ?thesis by simp
        qed
      qed
    qed
  next
    case (2 st fnVisitor s)
    then show ?case by (simp add: visitDownstream.psimps)
  next
    case (3 st fnVisitor dsFnName rest visited visitedInPath acc)
    note eq = 3(4)[unfolded visitDownstream.psimps(2)[OF 3(1)]]
    show ?case
    proof (cases "fnVisitor (map_of (nameToFn st) dsFnName) acc")
      case (Inl e)
      then show ?thesis using eq by simp
    next
      case (Inr acc1)
      note a = Inr
      show ?thesis
      proof (cases "visitNode st fnVisitor dsFnName (visited, visitedInPath, acc1)")
        case (Inl e)
        then show ?thesis using eq a by simp
      next
        case (Inr r)
        have "visitDownstream st fnVisitor rest r = Inr s'" using eq a Inr by simp
        from 3(3)[OF a Inr this] 3(2)[OF a Inr] show ?thesis by simp
      qed
    qed
  qed
  show ?thesis
  proof (relation "inv_image (less_than <*lex*> less_than)
           (\<lambda>x. case x of
                   Inl (st, fv, name, s) \<Rightarrow> (unvisited st (fst s), 0)
                 | Inr (st, fv, ds, s) \<Rightarrow> (unvisited st (fst s), Suc (length ds)))", goal_cases)
    case 1
    show ?case by (intro wf_inv_image wf_lex_prod wf_less_than)
  next
    case (2 st fnVisitor name visited visitedInPath acc x2)
    then show ?case by (simp add: unvisited_less)
  next
    case (3 st fnVisitor dsFnName rest visited visitedInPath acc b)
    then show ?case by simp
  next
    case (4 st fnVisitor dsFnName rest visited visitedInPath acc b ba)
    have "set visited \<subseteq> set (fst ba)"
      using 4 visited_mono(1)[of st fnVisitor dsFnName "(visited, visitedInPath, b)" ba] by simp
    then have "unvisited st (fst ba) \<le> unvisited st visited"
      by (rule unvisited_mono)
    then show ?case by auto
  qed
qed

text \<open>The visitor \<^verbatim>\<open>(fn) => fn.numDirtyDeps++\<close>, on the counters by function object.\<close>

definition countVisitor :: "jsfunction option \<Rightarrow> (nat \<Rightarrow> int) \<Rightarrow> abort + (nat \<Rightarrow> int)" where
  "countVisitor fn c =
     (case fn of
        None \<Rightarrow> Inl TypeError
      | Some f \<Rightarrow> Inr (c(addr f := c (addr f) + 1)))"

text \<open>The loop of \<^verbatim>\<open>visitReachableFnsFromParams\<close>.\<close>

fun visitParams ::
    "dataflow \<Rightarrow> (jsfunction option \<Rightarrow> 'a \<Rightarrow> abort + 'a) \<Rightarrow> name list \<Rightarrow>
     name list \<times> name list \<times> 'a \<Rightarrow> (abort \<times> 'a) + (name list \<times> name list \<times> 'a)" where
  "visitParams st fnVisitor [] s = Inr s"
| "visitParams st fnVisitor (paramName # rest) s =
     (case visitNode st fnVisitor paramName s of
        Inl e \<Rightarrow> Inl e
      | Inr s' \<Rightarrow> visitParams st fnVisitor rest s')"

definition visitReachableFnsFromParams ::
    "dataflow \<Rightarrow> name list \<Rightarrow> (jsfunction option \<Rightarrow> 'a \<Rightarrow> abort + 'a) \<Rightarrow> 'a \<Rightarrow> (abort \<times> 'a) + 'a" where
  "visitReachableFnsFromParams st paramNames fnVisitor acc =
     (case visitParams st fnVisitor paramNames ([], [], acc) of
        Inl e \<Rightarrow> Inl e
      | Inr s \<Rightarrow> Inr (snd (snd s)))"

text \<open>\<^verbatim>\<open>for (const fn of dataflow.nameToFn.values()) fn.numDirtyDeps = 0\<close>.\<close>

definition resetDirtyDeps :: "dataflow \<Rightarrow> nat \<Rightarrow> int" where
  "resetDirtyDeps st = fold (\<lambda>entry c. c(addr (snd entry) := 0)) (nameToFn st) (numDirtyDeps st)"

section \<open>Setting a node's value\<close>

text \<open>\<^verbatim>\<open>Set.prototype.add\<close> on a set kept in insertion order.\<close>

definition setAdd :: "name \<Rightarrow> name list \<Rightarrow> name list" where
  "setAdd x xs = (if x \<in> set xs then xs else xs @ [x])"

text \<open>
  The \<^verbatim>\<open>dsFnNames.forEach\<close> of \<^verbatim>\<open>setNodeValue\<close>:
  \<^verbatim>\<open>if (--dsFn.numDirtyDeps == 0) dirtyNodeNamesOut.add(dsFnName)\<close>.
\<close>

fun notifyDownstream ::
    "name list \<Rightarrow> dataflow \<Rightarrow> name list \<Rightarrow> (abort \<times> dataflow) + (dataflow \<times> name list)" where
  "notifyDownstream [] st dirty = Inr (st, dirty)"
| "notifyDownstream (dsFnName # rest) st dirty =
     (case map_of (nameToFn st) dsFnName of
        None \<Rightarrow> Inl (TypeError, st)
      | Some dsFn \<Rightarrow>
          (let n = numDirtyDeps st (addr dsFn) - 1;
               st' = st\<lparr>numDirtyDeps := (numDirtyDeps st)(addr dsFn := n)\<rparr>
           in notifyDownstream rest st' (if n = 0 then setAdd dsFnName dirty else dirty)))"

definition setNodeValue ::
    "name \<Rightarrow> jsval \<Rightarrow> name list \<Rightarrow> dataflow \<Rightarrow> (abort \<times> dataflow) + (dataflow \<times> name list)" where
  "setNodeValue name v dirtyNodeNamesOut st =
     (let oldValue = readValue st name;
          changed = \<not> isEqual oldValue v;
          st1 = st\<lparr>valueChanged := (valueChanged st)(name \<mapsto> changed)\<rparr>;
          st2 = (if changed then st1\<lparr>value' := (value' st1)(name \<mapsto> v)\<rparr> else st1)
      in case map_of (nodeToDownstreamNodes st2) name of
           None \<Rightarrow> Inr (st2, dirtyNodeNamesOut)
         | Some dsFnNames \<Rightarrow> notifyDownstream dsFnNames st2 dirtyNodeNamesOut)"

section \<open>One wavefront round\<close>

text \<open>
  The first statement of \<^verbatim>\<open>set\<close>: \<^verbatim>\<open>dataflow.updateBatches.enqueue(nameToValuesObj)\<close>.
  It is all a call of \<^verbatim>\<open>set\<close> does while a session is active.
\<close>

definition enqueueBatch :: "batch \<Rightarrow> dataflow \<Rightarrow> dataflow" where
  "enqueueBatch b st =
     st\<lparr>updateBatches := enqueue b (updateBatches st), trace := trace st @ [Enqueued b]\<rparr>"

text \<open>An entry of the parallel arrays \<^verbatim>\<open>fnNames\<close>, \<^verbatim>\<open>fnArgs\<close>, \<^verbatim>\<open>promises\<close>.\<close>

type_synonym call = "name \<times> jsval list \<times> outcome"

text \<open>
  The body of the loop \<^verbatim>\<open>for (const name of dirtyNodeNames)\<close>, for one name. The
  producer is called only when \<open>someArgChanged\<close>; the batches it passes to
  \<^verbatim>\<open>dataflow.set\<close> are enqueued at its call. A producer that throws synchronously ends
  the loop, and \<^verbatim>\<open>set\<close>, there. The result is stored under \<^verbatim>\<open>fn.name\<close>.
\<close>

definition launchNode :: "name \<Rightarrow> dataflow \<Rightarrow> (abort \<times> dataflow) + (dataflow \<times> call)" where
  "launchNode name st =
     (case map_of (nameToFn st) name of
        None \<Rightarrow> Inl (TypeError, st)
      | Some fn \<Rightarrow>
          (case map_of (nodeToUpstreamNodes st) name of
             None \<Rightarrow> Inl (TypeError, st)
           | Some paramNames \<Rightarrow>
               (let someArgChanged = list_ex (readChanged st) paramNames;
                    args = map (readValue st) paramNames
                in if someArgChanged then
                     (let r = body fn args;
                          st1 = fold enqueueBatch (snd r) (st\<lparr>trace := trace st @ [Invoked name args]\<rparr>)
                      in case fst r of
                           Throws why \<Rightarrow> Inl (ProducerThrew why, st1)
                         | oc \<Rightarrow> Inr (st1, (fname fn, args, oc)))
                   else Inr (st, (fname fn, args, Fulfilled (readValue st name))))))"

fun launch ::
    "name list \<Rightarrow> dataflow \<Rightarrow> call list \<Rightarrow> (abort \<times> dataflow) + (dataflow \<times> call list)" where
  "launch [] st calls = Inr (st, calls)"
| "launch (name # rest) st calls =
     (case launchNode name st of
        Inl e \<Rightarrow> Inl e
      | Inr r \<Rightarrow> launch rest (fst r) (calls @ [snd r]))"

text \<open>The loop over \<^verbatim>\<open>promiseResults\<close> after \<^verbatim>\<open>await Promise.allSettled(promises)\<close>.\<close>

fun settle ::
    "call list \<Rightarrow> dataflow \<Rightarrow> name list \<Rightarrow> (abort \<times> dataflow) + (dataflow \<times> name list)" where
  "settle [] st dirty = Inr (st, dirty)"
| "settle ((fnName, args, oc) # rest) st dirty =
     (case oc of
        Fulfilled v \<Rightarrow>
          (case setNodeValue fnName v dirty st of
             Inl e \<Rightarrow> Inl e
           | Inr r \<Rightarrow> settle rest (fst r) (snd r))
      | Rejected why \<Rightarrow>
          settle rest
            (st\<lparr>errors := errors st @
                   [\<lparr>functionName = fnName, functionParams = args, reason = why\<rparr>]\<rparr>) dirty
      | _ \<Rightarrow> settle rest st dirty)"

definition wavefrontRound ::
    "name list \<Rightarrow> dataflow \<Rightarrow> (abort \<times> dataflow) + (dataflow \<times> name list)" where
  "wavefrontRound dirtyNodeNames st =
     (case launch dirtyNodeNames st [] of
        Inl e \<Rightarrow> Inl e
      | Inr r \<Rightarrow>
          if list_ex (\<lambda>c. snd (snd c) = Pending) (snd r) then Inl (NeverSettles, fst r)
          else settle (snd r) (fst r) [])"

definition positiveDeps :: "dataflow \<Rightarrow> nat" where
  "positiveDeps st = card {a \<in> (\<lambda>e. addr (snd e)) ` set (nameToFn st). 0 < numDirtyDeps st a}"

subsection \<open>The wavefront loop ends\<close>

lemma positiveDeps_decrement:
  assumes "map_of (nameToFn st) k = Some f"
  defines "st1 \<equiv> st\<lparr>numDirtyDeps := (numDirtyDeps st)(addr f := numDirtyDeps st (addr f) - 1)\<rparr>"
  shows "positiveDeps st1 \<le> positiveDeps st"
    and "numDirtyDeps st (addr f) - 1 = 0 \<Longrightarrow> positiveDeps st1 < positiveDeps st"
proof -
  let ?A = "(\<lambda>e. addr (snd e)) ` set (nameToFn st)"
  let ?S = "{a \<in> ?A. 0 < numDirtyDeps st a}"
  let ?S1 = "{a \<in> ?A. 0 < numDirtyDeps st1 a}"
  have fin: "finite ?S" by simp
  have sub: "?S1 \<subseteq> ?S" by (auto simp: st1_def split: if_splits)
  have eq1: "positiveDeps st1 = card ?S1" by (simp add: positiveDeps_def st1_def)
  have eq: "positiveDeps st = card ?S" by (simp add: positiveDeps_def)
  show "positiveDeps st1 \<le> positiveDeps st"
    unfolding eq eq1 using fin sub by (rule card_mono)
  assume z: "numDirtyDeps st (addr f) - 1 = 0"
  have "(k, f) \<in> set (nameToFn st)" using assms(1) by (rule map_of_SomeD)
  then have inA: "addr f \<in> ?A" by force
  have "addr f \<in> ?S" using inA z by simp
  moreover have "addr f \<notin> ?S1" using z by (simp add: st1_def)
  ultimately have "?S1 \<subset> ?S" using sub by blast
  then show "positiveDeps st1 < positiveDeps st"
    unfolding eq eq1 using fin by (simp add: psubset_card_mono)
qed

lemma notifyDownstream_deps:
  "notifyDownstream ds st dirty = Inr (st', dirty') \<Longrightarrow>
     nameToFn st' = nameToFn st \<and> positiveDeps st' \<le> positiveDeps st \<and>
     (dirty' \<noteq> dirty \<longrightarrow> positiveDeps st' < positiveDeps st)"
proof (induction ds arbitrary: st dirty)
  case Nil
  then show ?case by simp
next
  case (Cons d ds)
  from Cons.prems obtain f where f: "map_of (nameToFn st) d = Some f"
    by (auto split: option.splits)
  let ?n = "numDirtyDeps st (addr f) - 1"
  let ?st1 = "st\<lparr>numDirtyDeps := (numDirtyDeps st)(addr f := ?n)\<rparr>"
  let ?d1 = "if ?n = 0 then setAdd d dirty else dirty"
  have rec: "notifyDownstream ds ?st1 ?d1 = Inr (st', dirty')"
    using Cons.prems f by (simp add: Let_def)
  note IH = Cons.IH[OF rec]
  note dec = positiveDeps_decrement[OF f]
  have "dirty' \<noteq> dirty \<Longrightarrow> positiveDeps st' < positiveDeps st"
  proof -
    assume ne: "dirty' \<noteq> dirty"
    show ?thesis
    proof (cases "?n = 0")
      case True
      then show ?thesis using dec(2) IH by linarith
    next
      case False
      then have "dirty' \<noteq> ?d1" using ne by simp
      then show ?thesis using IH dec(1) by linarith
    qed
  qed
  then show ?case using IH dec(1) by auto
qed

lemma positiveDeps_cong:
  "nameToFn st' = nameToFn st \<Longrightarrow> numDirtyDeps st' = numDirtyDeps st \<Longrightarrow>
     positiveDeps st' = positiveDeps st"
  by (simp add: positiveDeps_def)

text \<open>The first half of \<open>setNodeValue\<close>, named for the proofs: the two writes to the store.\<close>

definition storeValue :: "name \<Rightarrow> jsval \<Rightarrow> dataflow \<Rightarrow> dataflow" where
  "storeValue name v st =
     (if isEqual (readValue st name) v
      then st\<lparr>valueChanged := (valueChanged st)(name \<mapsto> False)\<rparr>
      else st\<lparr>valueChanged := (valueChanged st)(name \<mapsto> True),
              value' := (value' st)(name \<mapsto> v)\<rparr>)"

lemma setNodeValue_eq:
  "setNodeValue name v dirty st =
     (case map_of (nodeToDownstreamNodes st) name of
        None \<Rightarrow> Inr (storeValue name v st, dirty)
      | Some ds \<Rightarrow> notifyDownstream ds (storeValue name v st) dirty)"
  unfolding setNodeValue_def storeValue_def Let_def
  by (cases "isEqual (readValue st name) v"; cases "map_of (nodeToDownstreamNodes st) name"; simp)

lemma storeValue_frame [simp]:
  "nameToFn (storeValue name v st) = nameToFn st"
  "nodeToUpstreamNodes (storeValue name v st) = nodeToUpstreamNodes st"
  "nodeToDownstreamNodes (storeValue name v st) = nodeToDownstreamNodes st"
  "updateBatches (storeValue name v st) = updateBatches st"
  "inProgress (storeValue name v st) = inProgress st"
  "errors (storeValue name v st) = errors st"
  "numDirtyDeps (storeValue name v st) = numDirtyDeps st"
  "trace (storeValue name v st) = trace st"
  by (simp_all add: storeValue_def)

lemma setNodeValue_deps:
  assumes "setNodeValue name v dirty st = Inr (st', dirty')"
  shows "nameToFn st' = nameToFn st \<and> positiveDeps st' \<le> positiveDeps st \<and>
     (dirty' \<noteq> dirty \<longrightarrow> positiveDeps st' < positiveDeps st)"
proof -
  let ?st2 = "storeValue name v st"
  have pd: "positiveDeps ?st2 = positiveDeps st" by (rule positiveDeps_cong) simp_all
  show ?thesis
  proof (cases "map_of (nodeToDownstreamNodes st) name")
    case None
    then have "st' = ?st2" "dirty' = dirty" using assms by (simp_all add: setNodeValue_eq)
    then show ?thesis using pd by simp
  next
    case (Some ds)
    then have "notifyDownstream ds ?st2 dirty = Inr (st', dirty')"
      using assms by (simp add: setNodeValue_eq)
    from notifyDownstream_deps[OF this] show ?thesis using pd by simp
  qed
qed

lemma enqueueBatch_frame [simp]:
  "nameToFn (enqueueBatch b st) = nameToFn st"
  "nodeToUpstreamNodes (enqueueBatch b st) = nodeToUpstreamNodes st"
  "nodeToDownstreamNodes (enqueueBatch b st) = nodeToDownstreamNodes st"
  "value' (enqueueBatch b st) = value' st"
  "valueChanged (enqueueBatch b st) = valueChanged st"
  "inProgress (enqueueBatch b st) = inProgress st"
  "errors (enqueueBatch b st) = errors st"
  "numDirtyDeps (enqueueBatch b st) = numDirtyDeps st"
  by (simp_all add: enqueueBatch_def)

lemma fold_enqueueBatch_frame [simp]:
  "nameToFn (fold enqueueBatch bs st) = nameToFn st"
  "nodeToUpstreamNodes (fold enqueueBatch bs st) = nodeToUpstreamNodes st"
  "nodeToDownstreamNodes (fold enqueueBatch bs st) = nodeToDownstreamNodes st"
  "value' (fold enqueueBatch bs st) = value' st"
  "valueChanged (fold enqueueBatch bs st) = valueChanged st"
  "inProgress (fold enqueueBatch bs st) = inProgress st"
  "errors (fold enqueueBatch bs st) = errors st"
  "numDirtyDeps (fold enqueueBatch bs st) = numDirtyDeps st"
  by (induction bs arbitrary: st; simp)+

lemma launchNode_deps:
  "launchNode name st = Inr (st', c) \<Longrightarrow>
     nameToFn st' = nameToFn st \<and> numDirtyDeps st' = numDirtyDeps st"
  by (auto simp: launchNode_def Let_def split: option.splits if_splits outcome.splits)

lemma launch_frame:
  "launch names st calls = Inr (st', calls') \<Longrightarrow>
     nameToFn st' = nameToFn st \<and> numDirtyDeps st' = numDirtyDeps st"
proof (induction names arbitrary: st calls)
  case Nil
  then show ?case by simp
next
  case (Cons n names)
  from Cons.prems obtain st1 c where
    one: "launchNode n st = Inr (st1, c)" and rest: "launch names st1 (calls @ [c]) = Inr (st', calls')"
    by (cases "launchNode n st") auto
  from launchNode_deps[OF one] Cons.IH[OF rest] show ?case by simp
qed

lemma settle_deps:
  "settle calls st dirty = Inr (st', dirty') \<Longrightarrow>
     nameToFn st' = nameToFn st \<and> positiveDeps st' \<le> positiveDeps st \<and>
     (dirty' \<noteq> dirty \<longrightarrow> positiveDeps st' < positiveDeps st)"
proof (induction calls arbitrary: st dirty)
  case Nil
  then show ?case by simp
next
  case (Cons c calls)
  obtain fnName args oc where c: "c = (fnName, args, oc)" by (cases c) auto
  show ?case
  proof (cases oc)
    case (Fulfilled v)
    from Cons.prems c Fulfilled obtain st1 d1 where
      s1: "setNodeValue fnName v dirty st = Inr (st1, d1)" and
      s2: "settle calls st1 d1 = Inr (st', dirty')"
      by (auto split: sum.splits)
    from setNodeValue_deps[OF s1] Cons.IH[OF s2] show ?thesis by auto
  next
    case (Rejected why)
    let ?st1 = "st\<lparr>errors := errors st @
                   [\<lparr>functionName = fnName, functionParams = args, reason = why\<rparr>]\<rparr>"
    have "settle calls ?st1 dirty = Inr (st', dirty')" using Cons.prems c Rejected by simp
    from Cons.IH[OF this] positiveDeps_cong[of ?st1 st] show ?thesis by simp
  next
    case (Throws why)
    then have "settle calls st dirty = Inr (st', dirty')" using Cons.prems c by simp
    from Cons.IH[OF this] show ?thesis .
  next
    case Pending
    then have "settle calls st dirty = Inr (st', dirty')" using Cons.prems c by simp
    from Cons.IH[OF this] show ?thesis .
  qed
qed

lemma wavefrontRound_deps:
  assumes "wavefrontRound dirty st = Inr (st', dirty')"
  shows "nameToFn st' = nameToFn st \<and> positiveDeps st' \<le> positiveDeps st \<and>
     (dirty' \<noteq> [] \<longrightarrow> positiveDeps st' < positiveDeps st)"
proof -
  from assms obtain st1 calls where
    l: "launch dirty st [] = Inr (st1, calls)" and
    s: "settle calls st1 [] = Inr (st', dirty')"
    by (auto simp: wavefrontRound_def split: sum.splits if_splits)
  from launch_frame[OF l] have "nameToFn st1 = nameToFn st" "positiveDeps st1 = positiveDeps st"
    using positiveDeps_cong[of st1 st] by simp_all
  with settle_deps[OF s] show ?thesis by simp
qed

text \<open>
  The loop \<^verbatim>\<open>while (dirtyNodeNames.size > 0)\<close>. It ends: a name enters the next
  frontier only when a counter falls from one to zero, and counters only fall.
\<close>

function wavefront :: "name list \<Rightarrow> dataflow \<Rightarrow> (abort \<times> dataflow) + dataflow" where
  "wavefront dirtyNodeNames st =
     (if dirtyNodeNames = [] then Inr st
      else (case wavefrontRound dirtyNodeNames st of
              Inl e \<Rightarrow> Inl e
            | Inr r \<Rightarrow> wavefront (snd r) (fst r)))"
  by pat_completeness auto
termination
proof (relation "measure (\<lambda>(dirty, st). positiveDeps st + (if dirty = [] then 0 else 1))", goal_cases)
  case 1
  show ?case by simp
next
  case (2 dirtyNodeNames st r)
  obtain st' dirty' where r: "r = (st', dirty')" by (cases r)
  from wavefrontRound_deps[of dirtyNodeNames st st' dirty'] 2 r show ?case by auto
qed

declare wavefront.simps [simp del]

section \<open>Batches and sessions\<close>

text \<open>
  The loop \<^verbatim>\<open>for (const [name, value] of Object.entries(updateBatch))\<close>: the Promise
  guard, then \<open>setNodeValue\<close>, entry by entry.
\<close>

fun setBatchValues ::
    "batch \<Rightarrow> dataflow \<Rightarrow> name list \<Rightarrow> (abort \<times> dataflow) + (dataflow \<times> name list)" where
  "setBatchValues [] st dirty = Inr (st, dirty)"
| "setBatchValues ((name, v) # rest) st dirty =
     (case promiseGuard name v of
        Some e \<Rightarrow> Inl (e, st)
      | None \<Rightarrow>
          (case setNodeValue name v dirty st of
             Inl e \<Rightarrow> Inl e
           | Inr r \<Rightarrow> setBatchValues rest (fst r) (snd r)))"

text \<open>
  The body of \<^verbatim>\<open>while (!dataflow.updateBatches.isEmpty())\<close>: dequeue, reset and count
  the pending dependencies over the downstream closure, reset the changed flags, set
  the batch's values, run the wavefront loop.
\<close>

definition processBatch :: "dataflow \<Rightarrow> (abort \<times> dataflow) + dataflow" where
  "processBatch st =
     (case dequeue (updateBatches st) of
        Inl e \<Rightarrow> Inl (e, st)
      | Inr d \<Rightarrow>
          (let updateBatch = fst d;
               st1 = st\<lparr>updateBatches := snd d, trace := trace st @ [Dequeued updateBatch]\<rparr>;
               st2 = st1\<lparr>numDirtyDeps := resetDirtyDeps st1\<rparr>
           in case visitReachableFnsFromParams st2 (map fst updateBatch) countVisitor
                     (numDirtyDeps st2) of
                Inl e \<Rightarrow> Inl (fst e, st2\<lparr>numDirtyDeps := snd e\<rparr>)
              | Inr counts \<Rightarrow>
                  (case setBatchValues updateBatch
                          (st2\<lparr>numDirtyDeps := counts, valueChanged := (\<lambda>_. None)\<rparr>) [] of
                     Inl e \<Rightarrow> Inl e
                   | Inr r \<Rightarrow>
                       (case wavefront (snd r) (fst r) of
                          Inl e \<Rightarrow> Inl e
                        | Inr st' \<Rightarrow> Inr (st'\<lparr>trace := trace st' @ [Drained]\<rparr>)))))"

text \<open>
  The \<^verbatim>\<open>while\<close> loop itself. Producers may enqueue batches for ever, so the loop
  takes fuel, one unit per test of the queue; \<open>None\<close> is fuel run out.
\<close>

fun drain :: "nat \<Rightarrow> dataflow \<Rightarrow> ((abort \<times> dataflow) + dataflow) option" where
  "drain 0 st = None"
| "drain (Suc n) st =
     (if isEmpty (updateBatches st) then Some (Inr st)
      else (case processBatch st of
              Inl e \<Rightarrow> Some (Inl e)
            | Inr st' \<Rightarrow> drain n st'))"

text \<open>
  \<^verbatim>\<open>dataflow.set(nameToValuesObj)\<close>. \<open>Some (Inr st')\<close>: the returned promise is
  fulfilled, in state \<open>st'\<close>; \<open>Some (Inl (e, st'))\<close>: it is rejected with \<open>e\<close>, or, for
  \<open>NeverSettles\<close>, stays pending for ever.
\<close>

definition dataflow_set :: "nat \<Rightarrow> batch \<Rightarrow> dataflow \<Rightarrow> ((abort \<times> dataflow) + dataflow) option" where
  "dataflow_set fuel nameToValuesObj st =
     (let st1 = enqueueBatch nameToValuesObj st
      in if \<not> inProgress st1 then
           (case drain fuel (st1\<lparr>inProgress := True, errors := []\<rparr>) of
              None \<Rightarrow> None
            | Some (Inl e) \<Rightarrow> Some (Inl e)
            | Some (Inr st2) \<Rightarrow> Some (Inr (st2\<lparr>inProgress := False\<rparr>)))
         else Some (Inr st1))"

text \<open>\<^verbatim>\<open>dataflow.get(name)\<close>: \<^verbatim>\<open>await dataflow.set({})\<close>, then the cached value.\<close>

definition dataflow_get :: "nat \<Rightarrow> name \<Rightarrow> dataflow \<Rightarrow> ((abort \<times> dataflow) + (jsval \<times> dataflow)) option" where
  "dataflow_get fuel name st =
     (case dataflow_set fuel [] st of
        None \<Rightarrow> None
      | Some (Inl e) \<Rightarrow> Some (Inl e)
      | Some (Inr st') \<Rightarrow> Some (Inr (readValue st' name, st')))"

section \<open>Reading results\<close>

definition stateOf :: "(abort \<times> dataflow) + dataflow \<Rightarrow> dataflow" where
  "stateOf r = (case r of Inl e \<Rightarrow> snd e | Inr st \<Rightarrow> st)"

definition abortOf :: "(abort \<times> dataflow) + 'a \<Rightarrow> abort option" where
  "abortOf r = (case r of Inl e \<Rightarrow> Some (fst e) | Inr _ \<Rightarrow> None)"

text \<open>The state a step ends in, whether it returns or aborts.\<close>

definition endState :: "(abort \<times> dataflow) + (dataflow \<times> 'a) \<Rightarrow> dataflow" where
  "endState r = (case r of Inl e \<Rightarrow> snd e | Inr p \<Rightarrow> fst p)"

text \<open>For a name that \<^verbatim>\<open>Object.prototype\<close> does not have, the flag read is the flag set.\<close>

lemma readChanged_plain: "\<not> inherited u \<Longrightarrow> readChanged st u = (valueChanged st u = Some True)"
  by (cases "valueChanged st u") (auto simp: readChanged_def inherited_def objectPrototype_def)

lemma readChanged_cong: "valueChanged st' = valueChanged st \<Longrightarrow> readChanged st' = readChanged st"
  by (rule ext) (simp add: readChanged_def)

definition isThenable :: "jsval \<Rightarrow> bool" where
  "isThenable v =
     (case v of
        JObject props \<Rightarrow> (case map_of props ''then'' of Some (JFunction _) \<Rightarrow> True | _ \<Rightarrow> False)
      | _ \<Rightarrow> False)"

lemma stateOf_simps [simp]: "stateOf (Inl (e, st)) = st" "stateOf (Inr st) = st"
  by (simp_all add: stateOf_def)

lemma abortOf_simps [simp]: "abortOf (Inl (e, st)) = Some e" "abortOf (Inr x) = None"
  by (simp_all add: abortOf_def)

lemma endState_simps [simp]: "endState (Inl (e, st)) = st" "endState (Inr (st, d)) = st"
  by (simp_all add: endState_def)

section \<open>The Promise guard\<close>

lemma promiseGuard_null: "promiseGuard name JNull = Some TypeError"
  by (simp add: promiseGuard_def typeof_def getThen_def)

lemma promiseGuard_thenable: "isThenable v \<Longrightarrow> promiseGuard name v = Some (ValueIsPromise name)"
  by (auto simp: isThenable_def promiseGuard_def typeof_def getThen_def
           split: jsval.splits option.splits)

lemma promiseGuard_cases:
  "promiseGuard name v =
     (if v = JNull then Some TypeError
      else if isThenable v then Some (ValueIsPromise name) else None)"
  by (cases v) (auto simp: isThenable_def promiseGuard_def typeof_def getThen_def
                     split: jsval.splits option.splits)

lemma setBatchValues_append:
  "setBatchValues (pre @ post) st dirty =
     (case setBatchValues pre st dirty of
        Inl e \<Rightarrow> Inl e
      | Inr r \<Rightarrow> setBatchValues post (fst r) (snd r))"
proof (induction pre arbitrary: st dirty)
  case Nil
  show ?case by simp
next
  case (Cons a pre)
  obtain k w where a: "a = (k, w)" by (cases a)
  show ?case
  proof (cases "promiseGuard k w")
    case None
    then show ?thesis using a Cons.IH by (cases "setNodeValue k w dirty st") simp_all
  next
    case (Some e)
    then show ?thesis using a by simp
  qed
qed

lemma setBatchValues_guard_stops:
  assumes "promiseGuard name v = Some e"
  shows "setBatchValues (pre @ (name, v) # post) st dirty =
           (case setBatchValues pre st dirty of
              Inl x \<Rightarrow> Inl x
            | Inr r \<Rightarrow> Inl (e, fst r))"
  using assms by (simp add: setBatchValues_append split: sum.splits)

lemma setBatchValues_Inr_guards:
  "setBatchValues b st dirty = Inr r \<Longrightarrow> (k, w) \<in> set b \<Longrightarrow> promiseGuard k w = None"
proof (induction b arbitrary: st dirty)
  case Nil
  then show ?case by simp
next
  case (Cons a b)
  obtain k' w' where a: "a = (k', w')" by (cases a)
  from Cons.prems(1) a have g: "promiseGuard k' w' = None"
    by (cases "promiseGuard k' w'") simp_all
  with Cons.prems(1) a obtain r1 where
    r1: "setNodeValue k' w' dirty st = Inr r1" and rest: "setBatchValues b (fst r1) (snd r1) = Inr r"
    by (cases "setNodeValue k' w' dirty st") simp_all
  show ?case
  proof (cases "(k, w) = (k', w')")
    case True
    then show ?thesis using g by simp
  next
    case False
    then have "(k, w) \<in> set b" using Cons.prems(2) a by auto
    from Cons.IH[OF rest this] show ?thesis .
  qed
qed

section \<open>C10: a null batch value\<close>

text \<open>
  Claim C10. A \<^verbatim>\<open>null\<close> value in a batch makes the Promise guard throw a TypeError
  (\<^verbatim>\<open>typeof null\<close> is \<^verbatim>\<open>"object"\<close>, and reading \<^verbatim>\<open>null.then\<close> throws): the loop
  over the batch's entries stops at that entry, in the state the entries before it
  left, so \<open>setNodeValue\<close> is never called with \<^verbatim>\<open>null\<close> for a batch entry, and a
  batch holding a \<^verbatim>\<open>null\<close> anywhere never gets through the loop. Objects that are
  not thenable, and functions, pass the guard.
\<close>

theorem null_batch_value_throws:
  "promiseGuard name JNull = Some TypeError \<and>
   setBatchValues (pre @ (name, JNull) # post) st dirty =
     (case setBatchValues pre st dirty of
        Inl x \<Rightarrow> Inl x
      | Inr r \<Rightarrow> Inl (TypeError, fst r)) \<and>
   ((k, JNull) \<in> set b \<longrightarrow> isl (setBatchValues b st dirty)) \<and>
   (\<not> isThenable (JObject props) \<longrightarrow> promiseGuard name (JObject props) = None) \<and>
   promiseGuard name (JFunction f) = None"
proof -
  have a: "(k, JNull) \<in> set b \<Longrightarrow> isl (setBatchValues b st dirty)"
  proof (cases "setBatchValues b st dirty")
    case (Inl e)
    then show ?thesis by simp
  next
    case (Inr r)
    assume "(k, JNull) \<in> set b"
    from setBatchValues_Inr_guards[OF Inr this] show ?thesis by (simp add: promiseGuard_null)
  qed
  show ?thesis
    using a setBatchValues_guard_stops[OF promiseGuard_null]
    by (simp add: promiseGuard_null promiseGuard_cases isThenable_def)
qed

theorem null_batch_value_throws_witness:
  "(''x'', JNull) \<in> set [(''y'', JNum 1), (''x'', JNull)] \<and>
   isl (setBatchValues [(''y'', JNum 1), (''x'', JNull)] dataflow0 []) \<and>
   \<not> isThenable (JObject [(''a'', JNum 1)]) \<and>
   promiseGuard ''x'' (JObject [(''a'', JNum 1)]) = None"
  using null_batch_value_throws
          [of "''x''" "[]" "[]" dataflow0 "[]" "''x''" "[(''y'', JNum 1), (''x'', JNull)]"
              "[(''a'', JNum 1)]" 0]
  by (simp add: isThenable_def)

section \<open>What each step leaves alone\<close>

text \<open>
  \<open>sameGraph\<close>: the registered graph and the \<^verbatim>\<open>inProgress\<close> flag are the same in both
  states; nothing between the first and the last statement of a session writes them.
  \<open>sameQueue\<close>: so are the queue and the trace. \<open>sameStore\<close>: so are the cached values,
  the changed flags and the counters.
\<close>

definition sameGraph :: "dataflow \<Rightarrow> dataflow \<Rightarrow> bool" where
  "sameGraph st st' =
     (nameToFn st' = nameToFn st \<and> nodeToUpstreamNodes st' = nodeToUpstreamNodes st \<and>
      nodeToDownstreamNodes st' = nodeToDownstreamNodes st \<and> inProgress st' = inProgress st)"

definition sameQueue :: "dataflow \<Rightarrow> dataflow \<Rightarrow> bool" where
  "sameQueue st st' = (updateBatches st' = updateBatches st \<and> trace st' = trace st)"

definition sameStore :: "dataflow \<Rightarrow> dataflow \<Rightarrow> bool" where
  "sameStore st st' =
     (value' st' = value' st \<and> valueChanged st' = valueChanged st \<and>
      numDirtyDeps st' = numDirtyDeps st)"

lemma sameGraph_refl [simp]: "sameGraph st st"
  by (simp add: sameGraph_def)

lemma sameGraph_trans: "sameGraph a b \<Longrightarrow> sameGraph b c \<Longrightarrow> sameGraph a c"
  by (simp add: sameGraph_def)

lemma sameQueue_refl [simp]: "sameQueue st st"
  by (simp add: sameQueue_def)

lemma sameQueue_trans: "sameQueue a b \<Longrightarrow> sameQueue b c \<Longrightarrow> sameQueue a c"
  by (simp add: sameQueue_def)

lemma sameStore_refl [simp]: "sameStore st st"
  by (simp add: sameStore_def)

lemma sameStore_trans: "sameStore a b \<Longrightarrow> sameStore b c \<Longrightarrow> sameStore a c"
  by (simp add: sameStore_def)

lemma notifyDownstream_frame:
  "sameGraph st (endState (notifyDownstream ds st dirty)) \<and>
   sameQueue st (endState (notifyDownstream ds st dirty)) \<and>
   errors (endState (notifyDownstream ds st dirty)) = errors st \<and>
   value' (endState (notifyDownstream ds st dirty)) = value' st \<and>
   valueChanged (endState (notifyDownstream ds st dirty)) = valueChanged st"
proof (induction ds arbitrary: st dirty)
  case Nil
  show ?case by simp
next
  case (Cons d ds)
  show ?case
  proof (cases "map_of (nameToFn st) d")
    case None
    then show ?thesis by simp
  next
    case (Some f)
    let ?st1 = "st\<lparr>numDirtyDeps := (numDirtyDeps st)(addr f := numDirtyDeps st (addr f) - 1)\<rparr>"
    let ?d1 = "if numDirtyDeps st (addr f) - 1 = 0 then setAdd d dirty else dirty"
    have eq: "notifyDownstream (d # ds) st dirty = notifyDownstream ds ?st1 ?d1"
      using Some by (simp add: Let_def)
    from Cons.IH[of ?st1 ?d1] show ?thesis
      unfolding eq by (simp add: sameGraph_def sameQueue_def)
  qed
qed

lemma notifyDownstream_abort:
  "notifyDownstream ds st dirty = Inl (e, st') \<Longrightarrow> e = TypeError"
proof (induction ds arbitrary: st dirty)
  case Nil
  then show ?case by simp
next
  case (Cons d ds)
  show ?case
  proof (cases "map_of (nameToFn st) d")
    case None
    then show ?thesis using Cons.prems by simp
  next
    case (Some f)
    then show ?thesis using Cons.prems Cons.IH by (simp add: Let_def)
  qed
qed

lemma setNodeValue_frame:
  "sameGraph st (endState (setNodeValue name v dirty st)) \<and>
   sameQueue st (endState (setNodeValue name v dirty st)) \<and>
   errors (endState (setNodeValue name v dirty st)) = errors st \<and>
   value' (endState (setNodeValue name v dirty st)) = value' (storeValue name v st) \<and>
   valueChanged (endState (setNodeValue name v dirty st)) = valueChanged (storeValue name v st)"
proof (cases "map_of (nodeToDownstreamNodes st) name")
  case None
  then show ?thesis by (simp add: setNodeValue_eq sameGraph_def sameQueue_def)
next
  case (Some ds)
  then show ?thesis
    using notifyDownstream_frame[of "storeValue name v st" ds dirty]
    by (simp add: setNodeValue_eq sameGraph_def sameQueue_def)
qed

lemma setNodeValue_abort:
  "setNodeValue name v dirty st = Inl (e, st') \<Longrightarrow> e = TypeError"
  by (cases "map_of (nodeToDownstreamNodes st) name")
     (auto simp: setNodeValue_eq dest: notifyDownstream_abort)

lemma setBatchValues_frame:
  "sameGraph st (endState (setBatchValues b st dirty)) \<and>
   sameQueue st (endState (setBatchValues b st dirty)) \<and>
   errors (endState (setBatchValues b st dirty)) = errors st"
proof (induction b arbitrary: st dirty)
  case Nil
  show ?case by simp
next
  case (Cons a b)
  obtain k w where a: "a = (k, w)" by (cases a)
  show ?case
  proof (cases "promiseGuard k w")
    case (Some e)
    then show ?thesis using a by simp
  next
    case None
    note g = None
    show ?thesis
    proof (cases "setNodeValue k w dirty st")
      case (Inl e)
      then show ?thesis using a g setNodeValue_frame[of st k w dirty]
        by (cases e) simp
    next
      case (Inr r)
      obtain st1 d1 where r: "r = (st1, d1)" by (cases r)
      have eq: "setBatchValues (a # b) st dirty = setBatchValues b st1 d1"
        using a g Inr r by simp
      from setNodeValue_frame[of st k w dirty] Inr r Cons.IH[of st1 d1]
      show ?thesis unfolding eq by (simp add: sameGraph_def sameQueue_def)
    qed
  qed
qed

lemma setBatchValues_abort:
  "setBatchValues b st dirty = Inl (e, st') \<Longrightarrow>
     e = TypeError \<or> (\<exists>k w. (k, w) \<in> set b \<and> isThenable w \<and> e = ValueIsPromise k)"
proof (induction b arbitrary: st dirty)
  case Nil
  then show ?case by simp
next
  case (Cons a b)
  obtain k w where a: "a = (k, w)" by (cases a)
  show ?case
  proof (cases "promiseGuard k w")
    case (Some x)
    then have "e = x" using Cons.prems a by simp
    then show ?thesis using Some a by (auto simp: promiseGuard_cases split: if_splits)
  next
    case None
    note g = None
    show ?thesis
    proof (cases "setNodeValue k w dirty st")
      case (Inl x)
      then have "x = (e, st')" using Cons.prems a g by simp
      then show ?thesis using Inl setNodeValue_abort by blast
    next
      case (Inr r)
      then have "setBatchValues b (fst r) (snd r) = Inl (e, st')" using Cons.prems a g by simp
      from Cons.IH[OF this] show ?thesis by auto
    qed
  qed
qed

lemma fold_enqueueBatch_sameGraph [simp]: "sameGraph st (fold enqueueBatch bs st)"
  by (simp add: sameGraph_def)

lemma fold_enqueueBatch_sameStore [simp]: "sameStore st (fold enqueueBatch bs st)"
  by (simp add: sameStore_def)

lemma launchNode_frame:
  "sameGraph st (endState (launchNode name st)) \<and>
   sameStore st (endState (launchNode name st)) \<and>
   errors (endState (launchNode name st)) = errors st"
  by (auto simp: launchNode_def Let_def sameGraph_def sameStore_def
           split: option.splits outcome.splits)

lemma launchNode_abort:
  "launchNode name st = Inl (e, st') \<Longrightarrow> e = TypeError \<or> (\<exists>why. e = ProducerThrew why)"
  by (auto simp: launchNode_def Let_def split: option.splits outcome.splits if_splits)

lemma launch_frame_all:
  "sameGraph st (endState (launch names st calls)) \<and>
   sameStore st (endState (launch names st calls)) \<and>
   errors (endState (launch names st calls)) = errors st"
proof (induction names arbitrary: st calls)
  case Nil
  show ?case by simp
next
  case (Cons n names)
  show ?case
  proof (cases "launchNode n st")
    case (Inl e)
    then show ?thesis using launchNode_frame[of st n] by (cases e) simp
  next
    case (Inr r)
    obtain st1 c where r: "r = (st1, c)" by (cases r)
    have eq: "launch (n # names) st calls = launch names st1 (calls @ [c])"
      using Inr r by simp
    from launchNode_frame[of st n] Inr r Cons.IH[of st1 "calls @ [c]"]
    show ?thesis unfolding eq by (simp add: sameGraph_def sameStore_def)
  qed
qed

lemma launch_abort:
  "launch names st calls = Inl (e, st') \<Longrightarrow> e = TypeError \<or> (\<exists>why. e = ProducerThrew why)"
proof (induction names arbitrary: st calls)
  case Nil
  then show ?case by simp
next
  case (Cons n names)
  show ?case
  proof (cases "launchNode n st")
    case (Inl x)
    then have "launchNode n st = Inl (e, st')" using Cons.prems by simp
    then show ?thesis by (rule launchNode_abort)
  next
    case (Inr r)
    then have "launch names (fst r) (calls @ [snd r]) = Inl (e, st')" using Cons.prems by simp
    then show ?thesis by (rule Cons.IH)
  qed
qed

lemma settle_frame:
  "sameGraph st (endState (settle calls st dirty)) \<and>
   sameQueue st (endState (settle calls st dirty))"
proof (induction calls arbitrary: st dirty)
  case Nil
  show ?case by simp
next
  case (Cons c calls)
  obtain fnName args oc where c: "c = (fnName, args, oc)" by (cases c) auto
  show ?case
  proof (cases oc)
    case (Fulfilled v)
    show ?thesis
    proof (cases "setNodeValue fnName v dirty st")
      case (Inl e)
      then show ?thesis using c Fulfilled setNodeValue_frame[of st fnName v dirty]
        by (cases e) simp
    next
      case (Inr r)
      obtain st1 d1 where r: "r = (st1, d1)" by (cases r)
      have eq: "settle (c # calls) st dirty = settle calls st1 d1"
        using c Fulfilled Inr r by simp
      from setNodeValue_frame[of st fnName v dirty] Inr r Cons.IH[of st1 d1]
      show ?thesis unfolding eq by (simp add: sameGraph_def sameQueue_def)
    qed
  next
    case (Rejected why)
    let ?st1 = "st\<lparr>errors := errors st @
                   [\<lparr>functionName = fnName, functionParams = args, reason = why\<rparr>]\<rparr>"
    have eq: "settle (c # calls) st dirty = settle calls ?st1 dirty"
      using c Rejected by simp
    from Cons.IH[of ?st1 dirty] show ?thesis
      unfolding eq by (simp add: sameGraph_def sameQueue_def)
  next
    case (Throws why)
    then have eq: "settle (c # calls) st dirty = settle calls st dirty" using c by simp
    from Cons.IH[of st dirty] show ?thesis unfolding eq .
  next
    case Pending
    then have eq: "settle (c # calls) st dirty = settle calls st dirty" using c by simp
    from Cons.IH[of st dirty] show ?thesis unfolding eq .
  qed
qed

lemma settle_abort:
  "settle calls st dirty = Inl (e, st') \<Longrightarrow> e = TypeError"
proof (induction calls arbitrary: st dirty)
  case Nil
  then show ?case by simp
next
  case (Cons c calls)
  obtain fnName args oc where c: "c = (fnName, args, oc)" by (cases c) auto
  show ?case
  proof (cases oc)
    case (Fulfilled v)
    show ?thesis
    proof (cases "setNodeValue fnName v dirty st")
      case (Inl x)
      then have "setNodeValue fnName v dirty st = Inl (e, st')"
        using Cons.prems c Fulfilled by simp
      then show ?thesis by (rule setNodeValue_abort)
    next
      case (Inr r)
      then have "settle calls (fst r) (snd r) = Inl (e, st')"
        using Cons.prems c Fulfilled by simp
      then show ?thesis by (rule Cons.IH)
    qed
  next
    case (Rejected why)
    then show ?thesis using Cons.prems c Cons.IH by simp
  next
    case (Throws why)
    then show ?thesis using Cons.prems c Cons.IH by simp
  next
    case Pending
    then show ?thesis using Cons.prems c Cons.IH by simp
  qed
qed

lemma wavefrontRound_frame: "sameGraph st (endState (wavefrontRound dirty st))"
proof (cases "launch dirty st []")
  case (Inl e)
  then show ?thesis using launch_frame_all[of st dirty "[]"]
    by (cases e) (simp add: wavefrontRound_def)
next
  case (Inr r)
  obtain st1 calls where r: "r = (st1, calls)" by (cases r)
  have g1: "sameGraph st st1" using launch_frame_all[of st dirty "[]"] Inr r by simp
  show ?thesis
  proof (cases "list_ex (\<lambda>c. snd (snd c) = Pending) calls")
    case True
    then show ?thesis using Inr r g1 by (simp add: wavefrontRound_def)
  next
    case False
    then have "wavefrontRound dirty st = settle calls st1 []"
      using Inr r by (simp add: wavefrontRound_def)
    then show ?thesis using settle_frame[of st1 calls "[]"] g1 by (auto intro: sameGraph_trans)
  qed
qed

lemma wavefrontRound_abort:
  assumes "wavefrontRound dirty st = Inl (e, st')"
  shows "e = TypeError \<or> (\<exists>why. e = ProducerThrew why) \<or> e = NeverSettles"
proof (cases "launch dirty st []")
  case (Inl x)
  then have "launch dirty st [] = Inl (e, st')" using assms by (simp add: wavefrontRound_def)
  then show ?thesis using launch_abort by blast
next
  case (Inr r)
  show ?thesis
  proof (cases "list_ex (\<lambda>c. snd (snd c) = Pending) (snd r)")
    case True
    then show ?thesis using assms Inr by (simp add: wavefrontRound_def)
  next
    case False
    then have "settle (snd r) (fst r) [] = Inl (e, st')"
      using assms Inr by (simp add: wavefrontRound_def)
    then show ?thesis using settle_abort by blast
  qed
qed

lemma wavefront_frame: "sameGraph st (stateOf (wavefront dirty st))"
proof (induction dirty st rule: wavefront.induct)
  case (1 dirty st)
  show ?case
  proof (cases "dirty = []")
    case True
    then show ?thesis by (simp add: wavefront.simps)
  next
    case False
    show ?thesis
    proof (cases "wavefrontRound dirty st")
      case (Inl e)
      then show ?thesis using False wavefrontRound_frame[of st dirty]
        by (cases e) (simp add: wavefront.simps[of dirty])
    next
      case (Inr r)
      have eq: "wavefront dirty st = wavefront (snd r) (fst r)"
        using False Inr by (simp add: wavefront.simps[of dirty])
      have "sameGraph st (fst r)" using wavefrontRound_frame[of st dirty] Inr by (cases r) simp
      then show ?thesis unfolding eq using "1.IH"[OF False Inr] by (rule sameGraph_trans)
    qed
  qed
qed

lemma wavefront_abort:
  "wavefront dirty st = Inl (e, st') \<Longrightarrow>
     e = TypeError \<or> (\<exists>why. e = ProducerThrew why) \<or> e = NeverSettles"
proof (induction dirty st rule: wavefront.induct)
  case (1 dirty st)
  show ?case
  proof (cases "dirty = []")
    case True
    then show ?thesis using "1.prems" by (simp add: wavefront.simps)
  next
    case False
    show ?thesis
    proof (cases "wavefrontRound dirty st")
      case (Inl x)
      then have "wavefrontRound dirty st = Inl (e, st')"
        using False "1.prems" by (simp add: wavefront.simps[of dirty])
      then show ?thesis by (rule wavefrontRound_abort)
    next
      case (Inr r)
      then have "wavefront (snd r) (fst r) = Inl (e, st')"
        using False "1.prems" by (simp add: wavefront.simps[of dirty])
      from "1.IH"[OF False Inr this] show ?thesis .
    qed
  qed
qed

section \<open>The steps of one batch\<close>

text \<open>
  The state after the first statements of the loop body: the batch dequeued and the
  counters of all registered functions reset.
\<close>

definition beginBatch :: "batch \<Rightarrow> queue \<Rightarrow> dataflow \<Rightarrow> dataflow" where
  "beginBatch b q' st =
     (let st1 = st\<lparr>updateBatches := q', trace := trace st @ [Dequeued b]\<rparr>
      in st1\<lparr>numDirtyDeps := resetDirtyDeps st1\<rparr>)"

text \<open>The state in which the batch's values are set: counters counted, flags reset.\<close>

definition counted :: "(nat \<Rightarrow> int) \<Rightarrow> dataflow \<Rightarrow> dataflow" where
  "counted counts st = st\<lparr>numDirtyDeps := counts, valueChanged := (\<lambda>_. None)\<rparr>"

lemma beginBatch_frame [simp]:
  "nameToFn (beginBatch b q' st) = nameToFn st"
  "nodeToUpstreamNodes (beginBatch b q' st) = nodeToUpstreamNodes st"
  "nodeToDownstreamNodes (beginBatch b q' st) = nodeToDownstreamNodes st"
  "inProgress (beginBatch b q' st) = inProgress st"
  "value' (beginBatch b q' st) = value' st"
  "valueChanged (beginBatch b q' st) = valueChanged st"
  "errors (beginBatch b q' st) = errors st"
  "updateBatches (beginBatch b q' st) = q'"
  "trace (beginBatch b q' st) = trace st @ [Dequeued b]"
  by (simp_all add: beginBatch_def Let_def)

lemma counted_frame [simp]:
  "nameToFn (counted c st) = nameToFn st"
  "nodeToUpstreamNodes (counted c st) = nodeToUpstreamNodes st"
  "nodeToDownstreamNodes (counted c st) = nodeToDownstreamNodes st"
  "inProgress (counted c st) = inProgress st"
  "value' (counted c st) = value' st"
  "valueChanged (counted c st) = (\<lambda>_. None)"
  "numDirtyDeps (counted c st) = c"
  "errors (counted c st) = errors st"
  "updateBatches (counted c st) = updateBatches st"
  "trace (counted c st) = trace st"
  by (simp_all add: counted_def)

lemma processBatch_eq:
  assumes "dequeue (updateBatches st) = Inr (b, q')"
  shows "processBatch st =
     (case visitReachableFnsFromParams (beginBatch b q' st) (map fst b) countVisitor
             (numDirtyDeps (beginBatch b q' st)) of
        Inl e \<Rightarrow> Inl (fst e, (beginBatch b q' st)\<lparr>numDirtyDeps := snd e\<rparr>)
      | Inr counts \<Rightarrow>
          (case setBatchValues b (counted counts (beginBatch b q' st)) [] of
             Inl e \<Rightarrow> Inl e
           | Inr r \<Rightarrow>
               (case wavefront (snd r) (fst r) of
                  Inl e \<Rightarrow> Inl e
                | Inr st' \<Rightarrow> Inr (st'\<lparr>trace := trace st' @ [Drained]\<rparr>))))"
  unfolding processBatch_def beginBatch_def counted_def Let_def using assms
  by (simp cong: sum.case_cong)

lemma processBatch_cases [consumes 0, case_names Empty Visit Values Wave Done]:
  obtains
    (Empty) e where "dequeue (updateBatches st) = Inl e" "processBatch st = Inl (e, st)"
  | (Visit) b q' e c where "dequeue (updateBatches st) = Inr (b, q')"
      "visitReachableFnsFromParams (beginBatch b q' st) (map fst b) countVisitor
         (numDirtyDeps (beginBatch b q' st)) = Inl (e, c)"
      "processBatch st = Inl (e, (beginBatch b q' st)\<lparr>numDirtyDeps := c\<rparr>)"
  | (Values) b q' counts e s where "dequeue (updateBatches st) = Inr (b, q')"
      "visitReachableFnsFromParams (beginBatch b q' st) (map fst b) countVisitor
         (numDirtyDeps (beginBatch b q' st)) = Inr counts"
      "setBatchValues b (counted counts (beginBatch b q' st)) [] = Inl (e, s)"
      "processBatch st = Inl (e, s)"
  | (Wave) b q' counts s dirty e s' where "dequeue (updateBatches st) = Inr (b, q')"
      "visitReachableFnsFromParams (beginBatch b q' st) (map fst b) countVisitor
         (numDirtyDeps (beginBatch b q' st)) = Inr counts"
      "setBatchValues b (counted counts (beginBatch b q' st)) [] = Inr (s, dirty)"
      "wavefront dirty s = Inl (e, s')"
      "processBatch st = Inl (e, s')"
  | (Done) b q' counts s dirty s' where "dequeue (updateBatches st) = Inr (b, q')"
      "visitReachableFnsFromParams (beginBatch b q' st) (map fst b) countVisitor
         (numDirtyDeps (beginBatch b q' st)) = Inr counts"
      "setBatchValues b (counted counts (beginBatch b q' st)) [] = Inr (s, dirty)"
      "wavefront dirty s = Inr s'"
      "processBatch st = Inr (s'\<lparr>trace := trace s' @ [Drained]\<rparr>)"
proof (cases "dequeue (updateBatches st)")
  case (Inl e)
  then have "processBatch st = Inl (e, st)" by (simp add: processBatch_def)
  with Inl show ?thesis by (rule Empty)
next
  case (Inr d)
  obtain b q' where d: "dequeue (updateBatches st) = Inr (b, q')" using Inr by (cases d) simp
  note eq = processBatch_eq[OF d]
  let ?st2 = "beginBatch b q' st"
  show ?thesis
  proof (cases "visitReachableFnsFromParams ?st2 (map fst b) countVisitor (numDirtyDeps ?st2)")
    case (Inl x)
    obtain e c where x: "x = (e, c)" by (cases x)
    show ?thesis using Visit[OF d] Inl x eq by simp
  next
    case (Inr counts)
    note v = Inr
    show ?thesis
    proof (cases "setBatchValues b (counted counts ?st2) []")
      case (Inl x)
      obtain e s where x: "x = (e, s)" by (cases x)
      show ?thesis using Values[OF d v] Inl x eq v by simp
    next
      case (Inr r)
      obtain s dirty where r: "r = (s, dirty)" by (cases r)
      note sb = Inr[unfolded r]
      show ?thesis
      proof (cases "wavefront dirty s")
        case (Inl x)
        obtain e s' where x: "x = (e, s')" by (cases x)
        show ?thesis using Wave[OF d v sb] Inl x eq v sb by simp
      next
        case (Inr s')
        show ?thesis using Done[OF d v sb Inr] eq v sb Inr by simp
      qed
    qed
  qed
qed

subsection \<open>Aborts of the traversal\<close>

lemma visit_abort_gen:
  "visitNode st fv name s = Inl (e, c) \<Longrightarrow> (\<And>f a x. fv f a = Inl x \<Longrightarrow> x = TypeError) \<Longrightarrow>
     e = TypeError \<or> (\<exists>p. e = CycleDetected p)"
  "visitDownstream st fv ds s = Inl (e, c) \<Longrightarrow> (\<And>f a x. fv f a = Inl x \<Longrightarrow> x = TypeError) \<Longrightarrow>
     e = TypeError \<or> (\<exists>p. e = CycleDetected p)"
proof (induction st fv name s and st fv ds s rule: visitNode_visitDownstream.induct)
  case (1 st fnVisitor name visited visitedInPath acc)
  show ?case
  proof (cases "name \<in> set visitedInPath")
    case True
    then show ?thesis using "1.prems"(1) by auto
  next
    case False
    note np = False
    show ?thesis
    proof (cases "name \<in> set visited")
      case True
      then show ?thesis using "1.prems"(1) np by simp
    next
      case False
      show ?thesis
      proof (cases "map_of (nodeToDownstreamNodes st) name")
        case None
        then show ?thesis using "1.prems"(1) np False by simp
      next
        case (Some dsl)
        then have "visitDownstream st fnVisitor dsl (visited @ [name], visitedInPath @ [name], acc) = Inl (e, c)"
          using "1.prems"(1) np False by (auto split: sum.splits)
        from "1.IH"[OF np False Some this "1.prems"(2)] show ?thesis .
      qed
    qed
  qed
next
  case (2 st fnVisitor s)
  then show ?case by simp
next
  case (3 st fnVisitor dsFnName rest visited visitedInPath acc)
  show ?case
  proof (cases "fnVisitor (map_of (nameToFn st) dsFnName) acc")
    case (Inl x)
    then have "x = TypeError" by (rule "3.prems"(2))
    then show ?thesis using "3.prems"(1) Inl by simp
  next
    case (Inr acc1)
    note a = Inr
    show ?thesis
    proof (cases "visitNode st fnVisitor dsFnName (visited, visitedInPath, acc1)")
      case (Inl x)
      then have "visitNode st fnVisitor dsFnName (visited, visitedInPath, acc1) = Inl (e, c)"
        using "3.prems"(1) a by simp
      from "3.IH"(1)[OF a this "3.prems"(2)] show ?thesis .
    next
      case (Inr s')
      then have "visitDownstream st fnVisitor rest s' = Inl (e, c)"
        using "3.prems"(1) a by simp
      from "3.IH"(2)[OF a Inr this "3.prems"(2)] show ?thesis .
    qed
  qed
qed

lemma countVisitor_abort: "countVisitor f a = Inl x \<Longrightarrow> x = TypeError"
  by (auto simp: countVisitor_def split: option.splits)

lemma visit_abort:
  "visitNode st countVisitor name s = Inl (e, c) \<Longrightarrow> e = TypeError \<or> (\<exists>p. e = CycleDetected p)"
  by (erule visit_abort_gen(1)) (rule countVisitor_abort)

lemma visitParams_abort:
  "visitParams st countVisitor ps s = Inl (e, c) \<Longrightarrow> e = TypeError \<or> (\<exists>p. e = CycleDetected p)"
proof (induction ps arbitrary: s)
  case Nil
  then show ?case by simp
next
  case (Cons p ps)
  show ?case
  proof (cases "visitNode st countVisitor p s")
    case (Inl x)
    then have "visitNode st countVisitor p s = Inl (e, c)" using Cons.prems by simp
    then show ?thesis by (rule visit_abort(1))
  next
    case (Inr s')
    then have "visitParams st countVisitor ps s' = Inl (e, c)" using Cons.prems by simp
    then show ?thesis by (rule Cons.IH)
  qed
qed

lemma visitReachable_abort:
  "visitReachableFnsFromParams st ps countVisitor c0 = Inl (e, c) \<Longrightarrow>
     e = TypeError \<or> (\<exists>p. e = CycleDetected p)"
  by (cases "visitParams st countVisitor ps ([], [], c0)")
     (auto simp: visitReachableFnsFromParams_def dest: visitParams_abort)

lemma dequeue_abort: "dequeue q = Inl e \<Longrightarrow> e = QueueIsEmpty \<or> e = TypeError"
  by (auto simp: dequeue_def split: if_splits option.splits)

text \<open>A cycle error can only come from the traversal, before any value is set.\<close>

lemma processBatch_cycle:
  assumes "processBatch st = Inl (CycleDetected p, st')"
  obtains b q' c where "dequeue (updateBatches st) = Inr (b, q')"
    "visitReachableFnsFromParams (beginBatch b q' st) (map fst b) countVisitor
         (numDirtyDeps (beginBatch b q' st)) = Inl (CycleDetected p, c)"
    "st' = (beginBatch b q' st)\<lparr>numDirtyDeps := c\<rparr>"
proof (cases st rule: processBatch_cases)
  case (Empty e)
  then show ?thesis using assms dequeue_abort by fastforce
next
  case (Visit b q' e c)
  then show ?thesis using assms that by simp
next
  case (Values b q' counts e s)
  then show ?thesis using assms setBatchValues_abort[of b _ "[]" e s] by auto
next
  case (Wave b q' counts s dirty e s')
  then show ?thesis using assms wavefront_abort[of dirty s e s'] by auto
next
  case (Done b q' counts s dirty s')
  then show ?thesis using assms by simp
qed

lemma processBatch_frame: "sameGraph st (stateOf (processBatch st))"
proof (cases st rule: processBatch_cases)
  case (Empty e)
  then show ?thesis by simp
next
  case (Visit b q' e c)
  then show ?thesis by (simp add: sameGraph_def)
next
  case (Values b q' counts e s)
  then show ?thesis
    using setBatchValues_frame[of "counted counts (beginBatch b q' st)" b "[]"]
    by (simp add: sameGraph_def)
next
  case (Wave b q' counts s dirty e s')
  then show ?thesis
    using setBatchValues_frame[of "counted counts (beginBatch b q' st)" b "[]"]
      wavefront_frame[of s dirty]
    by (simp add: sameGraph_def)
next
  case (Done b q' counts s dirty s')
  then show ?thesis
    using setBatchValues_frame[of "counted counts (beginBatch b q' st)" b "[]"]
      wavefront_frame[of s dirty]
    by (simp add: sameGraph_def)
qed

lemma drain_frame: "drain n st = Some r \<Longrightarrow> sameGraph st (stateOf r)"
proof (induction n arbitrary: st)
  case 0
  then show ?case by simp
next
  case (Suc n)
  show ?case
  proof (cases "isEmpty (updateBatches st)")
    case True
    then show ?thesis using Suc.prems by auto
  next
    case False
    show ?thesis
    proof (cases "processBatch st")
      case (Inl e)
      then show ?thesis using Suc.prems False processBatch_frame[of st] by auto
    next
      case (Inr st1)
      then have "drain n st1 = Some r" using Suc.prems False by simp
      from Suc.IH[OF this] processBatch_frame[of st] Inr show ?thesis
        by (auto intro: sameGraph_trans)
    qed
  qed
qed

section \<open>Evaluating concrete runs\<close>

lemmas run_simps =
  registerFns_def register1_def dataflow0_def newQueue_def dataflow_set_def enqueueBatch_def
  enqueue_def dequeue_def isEmpty_def processBatch_def Let_def visitReachableFnsFromParams_def
  countVisitor_def resetDirtyDeps_def promiseGuard_def typeof_def getThen_def setNodeValue_def
  readValue_def readChanged_def objectPrototype_def inherited_def isEqual_def setAdd_def
  launchNode_def wavefrontRound_def
  wavefront.simps eval_nat_numeral

section \<open>C3: a Promise among a batch's values\<close>

definition aPromise :: jsval where
  "aPromise = JObject [(''then'', JFunction 0)]"

definition batchWithPromise :: batch where
  "batchWithPromise = [(''x'', JNum 1), (''p'', aPromise)]"

text \<open>
  Claim C3 says that a batch holding a Promise fails before any mutation, no cached value
  or changed flag being written for any of its entries. The guard is inside the loop
  over the entries: with \<^verbatim>\<open>set({x: 1, p: promise})\<close> on a fresh engine the call is
  rejected for \<open>p\<close>, and by then \<open>x\<close> is cached as 1 and flagged as changed.
\<close>

theorem promise_guard_after_mutation_counterexample:
  "dataflow_set 1 batchWithPromise dataflow0 \<noteq> None \<and>
   abortOf (the (dataflow_set 1 batchWithPromise dataflow0)) = Some (ValueIsPromise ''p'') \<and>
   value' dataflow0 ''x'' = None \<and>
   value' (stateOf (the (dataflow_set 1 batchWithPromise dataflow0))) ''x'' = Some (JNum 1) \<and>
   valueChanged (stateOf (the (dataflow_set 1 batchWithPromise dataflow0))) ''x'' = Some True"
  by (simp add: batchWithPromise_def aPromise_def run_simps)

text \<open>
  Claim C3, amended. A thenable value in a batch stops the loop over the batch's entries
  at that entry with the error naming it, unless an entry before it stopped the loop
  first: the entries before it have been applied by \<open>setNodeValue\<close>, that entry and the
  ones after it are not written, and if it is the first entry the state is as it was
  when the loop began. The batch being processed then aborts, so the call of
  \<^verbatim>\<open>set\<close> that runs the session is rejected.
\<close>

theorem promise_value_stops_batch:
  assumes "isThenable v"
  shows "setBatchValues (pre @ (name, v) # post) st dirty =
           (case setBatchValues pre st dirty of
              Inl x \<Rightarrow> Inl x
            | Inr r \<Rightarrow> Inl (ValueIsPromise name, fst r)) \<and>
         setBatchValues ((name, v) # post) st dirty = Inl (ValueIsPromise name, st) \<and>
         (dequeue (updateBatches st) = Inr (pre @ (name, v) # post, q') \<longrightarrow>
            isl (processBatch st))"
proof -
  note g = promiseGuard_thenable[OF assms, of name]
  have fails: "isl (processBatch st)"
    if d: "dequeue (updateBatches st) = Inr (pre @ (name, v) # post, q')"
  proof (cases st rule: processBatch_cases)
    case (Empty e)
    then show ?thesis by simp
  next
    case (Visit b q' e c)
    then show ?thesis by simp
  next
    case (Values b q' counts e s)
    then show ?thesis by simp
  next
    case (Wave b q' counts s dirty e s')
    then show ?thesis by simp
  next
    case (Done b q'' counts s dirty s')
    have "(name, v) \<in> set b" using Done(1) d by auto
    from setBatchValues_Inr_guards[OF Done(3) this] g show ?thesis by simp
  qed
  show ?thesis
    using setBatchValues_guard_stops[OF g, of pre post st dirty]
      setBatchValues_guard_stops[OF g, of "[]" post st dirty] fails
    by simp
qed

theorem promise_value_stops_batch_witness:
  "isThenable aPromise \<and>
   dequeue (updateBatches (enqueueBatch batchWithPromise dataflow0)) =
     Inr ([(''x'', JNum 1)] @ (''p'', aPromise) # [],
          (updateBatches (enqueueBatch batchWithPromise dataflow0))\<lparr>headIdx := 1\<rparr>) \<and>
   isl (processBatch (enqueueBatch batchWithPromise dataflow0)) \<and>
   setBatchValues [(''p'', aPromise)] dataflow0 [] = Inl (ValueIsPromise ''p'', dataflow0)"
  using promise_value_stops_batch
          [of aPromise "[(''x'', JNum 1)]" "''p''" "[]" "enqueueBatch batchWithPromise dataflow0" "[]"
              "(updateBatches (enqueueBatch batchWithPromise dataflow0))\<lparr>headIdx := 1\<rparr>"]
        promise_value_stops_batch [of aPromise "[]" "''p''" "[]" dataflow0 "[]"]
  by (simp add: isThenable_def aPromise_def batchWithPromise_def enqueueBatch_def enqueue_def
        dequeue_def dataflow0_def newQueue_def)

section \<open>C4: cycles\<close>

text \<open>\<^verbatim>\<open>nodeToDownstreamNodes.get(name)\<close>, empty when absent.\<close>

definition downstreamOf :: "dataflow \<Rightarrow> name \<Rightarrow> name list" where
  "downstreamOf st name =
     (case map_of (nodeToDownstreamNodes st) name of None \<Rightarrow> [] | Some ds \<Rightarrow> ds)"

text \<open>A path along the edges of the graph: each name is downstream of the one before.\<close>

fun chain :: "dataflow \<Rightarrow> name list \<Rightarrow> bool" where
  "chain st [] = True"
| "chain st [x] = True"
| "chain st (x # y # rest) = (y \<in> set (downstreamOf st x) \<and> chain st (y # rest))"

lemma chain_snoc:
  "chain st xs \<Longrightarrow> xs \<noteq> [] \<Longrightarrow> y \<in> set (downstreamOf st (last xs)) \<Longrightarrow> chain st (xs @ [y])"
  by (induction st xs rule: chain.induct) auto

lemma chain_dropWhile: "chain st xs \<Longrightarrow> chain st (dropWhile P xs)"
proof (induction st xs rule: chain.induct)
  case (3 st x y rest)
  then show ?case by (cases "P x") auto
qed auto

lemma chain_sameGraph:
  "nodeToDownstreamNodes st' = nodeToDownstreamNodes st \<Longrightarrow> chain st' p = chain st p"
  by (induction st p rule: chain.induct) (auto simp: downstreamOf_def)

lemma last_dropWhile: "x \<in> set xs \<Longrightarrow> last (dropWhile (\<lambda>n. n \<noteq> x) xs) = last xs"
  by (induction xs) auto

lemma hd_dropWhile_mem: "x \<in> set xs \<Longrightarrow> hd (dropWhile (\<lambda>n. n \<noteq> x) xs) = x"
  by (induction xs) auto

lemma dropWhile_mem_nonempty: "x \<in> set xs \<Longrightarrow> dropWhile (\<lambda>n. n \<noteq> x) xs \<noteq> []"
  by (induction xs) auto

text \<open>What the error of \<open>visitNode\<close> names: a closed path along the edges.\<close>

definition isCycle :: "dataflow \<Rightarrow> name list \<Rightarrow> bool" where
  "isCycle st p = (chain st p \<and> 2 \<le> length p \<and> hd p = last p)"

lemma revisit_isCycle:
  assumes "name \<in> set path" "chain st path" "name \<in> set (downstreamOf st (last path))"
  shows "isCycle st (dropWhile (\<lambda>n. n \<noteq> name) path @ [name])"
proof -
  let ?d = "dropWhile (\<lambda>n. n \<noteq> name) path"
  have ne: "?d \<noteq> []" using assms(1) by (rule dropWhile_mem_nonempty)
  have "chain st ?d" using assms(2) by (rule chain_dropWhile)
  moreover have "name \<in> set (downstreamOf st (last ?d))"
    using assms(1,3) by (simp add: last_dropWhile)
  ultimately have "chain st (?d @ [name])" using ne by (simp add: chain_snoc)
  moreover have "hd (?d @ [name]) = name" using ne assms(1) by (simp add: hd_dropWhile_mem)
  moreover have "2 \<le> length (?d @ [name])" using ne by (cases ?d) auto
  ultimately show ?thesis by (simp add: isCycle_def)
qed

lemma visit_path:
  "distinct (fst (snd s)) \<Longrightarrow> chain st (fst (snd s)) \<Longrightarrow>
   (fst (snd s) = [] \<or> name \<in> set (downstreamOf st (last (fst (snd s))))) \<Longrightarrow>
   \<forall>f a x. fv f a = Inl x \<longrightarrow> x = TypeError \<Longrightarrow>
     (\<forall>p c. visitNode st fv name s = Inl (CycleDetected p, c) \<longrightarrow> isCycle st p) \<and>
     (\<forall>r. visitNode st fv name s = Inr r \<longrightarrow> fst (snd r) = fst (snd s))"
  "distinct (fst (snd s)) \<Longrightarrow> chain st (fst (snd s)) \<Longrightarrow> fst (snd s) \<noteq> [] \<Longrightarrow>
   set ds \<subseteq> set (downstreamOf st (last (fst (snd s)))) \<Longrightarrow>
   \<forall>f a x. fv f a = Inl x \<longrightarrow> x = TypeError \<Longrightarrow>
     (\<forall>p c. visitDownstream st fv ds s = Inl (CycleDetected p, c) \<longrightarrow> isCycle st p) \<and>
     (\<forall>r. visitDownstream st fv ds s = Inr r \<longrightarrow> fst (snd r) = fst (snd s))"
proof (induction st fv name s and st fv ds s rule: visitNode_visitDownstream.induct)
  case (1 st fnVisitor name visited visitedInPath acc)
  note prems = "1.prems"(1-3)[simplified]
  show ?case
  proof (cases "name \<in> set visitedInPath")
    case True
    then have "visitedInPath \<noteq> []" by auto
    with prems(3) have "name \<in> set (downstreamOf st (last visitedInPath))" by simp
    from revisit_isCycle[OF True prems(2) this] True show ?thesis by simp
  next
    case False
    note np = False
    have rm: "removeAll name (visitedInPath @ [name]) = visitedInPath" using np by simp
    show ?thesis
    proof (cases "name \<in> set visited")
      case True
      then show ?thesis using np rm by simp
    next
      case False
      show ?thesis
      proof (cases "map_of (nodeToDownstreamNodes st) name")
        case None
        then show ?thesis using np False rm by simp
      next
        case (Some dsl)
        have d: "distinct (fst (snd (visited @ [name], visitedInPath @ [name], acc)))"
          using prems(1) np by simp
        have c: "chain st (fst (snd (visited @ [name], visitedInPath @ [name], acc)))"
        proof (cases "visitedInPath = []")
          case True
          then show ?thesis by simp
        next
          case False
          then show ?thesis using prems(2,3) by (simp add: chain_snoc)
        qed
        have n: "fst (snd (visited @ [name], visitedInPath @ [name], acc)) \<noteq> []" by simp
        have s: "set dsl \<subseteq> set (downstreamOf st (last (fst (snd (visited @ [name], visitedInPath @ [name], acc)))))"
          using Some by (simp add: downstreamOf_def)
        note IH = "1.IH"[OF np False Some d c n s "1.prems"(4), simplified]
        show ?thesis
        proof (cases "visitDownstream st fnVisitor dsl (visited @ [name], visitedInPath @ [name], acc)")
          case (Inl e)
          then show ?thesis using np False Some IH by auto
        next
          case (Inr r)
          then have "fst (snd r) = visitedInPath @ [name]" using IH by (cases r) auto
          then show ?thesis using np False Some Inr rm by (auto split: prod.splits)
        qed
      qed
    qed
  qed
next
  case (2 st fnVisitor s)
  then show ?case by simp
next
  case (3 st fnVisitor dsFnName rest visited visitedInPath acc)
  note prems = "3.prems"(1-4)[simplified]
  show ?case
  proof (cases "fnVisitor (map_of (nameToFn st) dsFnName) acc")
    case (Inl x)
    then have "x = TypeError" using "3.prems"(5) by blast
    then show ?thesis using Inl by simp
  next
    case (Inr acc1)
    note a = Inr
    have d: "distinct (fst (snd (visited, visitedInPath, acc1)))" using prems(1) by simp
    have c: "chain st (fst (snd (visited, visitedInPath, acc1)))" using prems(2) by simp
    have m: "fst (snd (visited, visitedInPath, acc1)) = [] \<or>
             dsFnName \<in> set (downstreamOf st (last (fst (snd (visited, visitedInPath, acc1)))))"
      using prems(4) by simp
    note IH1 = "3.IH"(1)[OF a d c m "3.prems"(5), simplified]
    show ?thesis
    proof (cases "visitNode st fnVisitor dsFnName (visited, visitedInPath, acc1)")
      case (Inl e)
      then show ?thesis using a IH1 by auto
    next
      case (Inr s')
      have p': "fst (snd s') = visitedInPath" using IH1 Inr by (cases s') auto
      have d': "distinct (fst (snd s'))" using prems(1) p' by simp
      have c': "chain st (fst (snd s'))" using prems(2) p' by simp
      have n': "fst (snd s') \<noteq> []" using prems(3) p' by simp
      have sub: "set rest \<subseteq> set (downstreamOf st (last (fst (snd s'))))"
        using prems(4) p' by simp
      from "3.IH"(2)[OF a Inr d' c' n' sub "3.prems"(5)]
      show ?thesis using a Inr p' by simp
    qed
  qed
qed

lemma visitParams_path:
  assumes "fst (snd s) = []" "\<forall>f a x. fv f a = Inl x \<longrightarrow> x = TypeError"
  shows "visitParams st fv ps s = Inl (CycleDetected p, c) \<Longrightarrow> isCycle st p"
  using assms(1)
proof (induction ps arbitrary: s)
  case Nil
  then show ?case by simp
next
  case (Cons a ps)
  have vp: "(\<forall>p c. visitNode st fv a s = Inl (CycleDetected p, c) \<longrightarrow> isCycle st p) \<and>
     (\<forall>r. visitNode st fv a s = Inr r \<longrightarrow> fst (snd r) = fst (snd s))"
    using visit_path(1)[of s st a fv] Cons.prems(2) assms(2) by simp
  show ?case
  proof (cases "visitNode st fv a s")
    case (Inl e)
    then show ?thesis using Cons.prems(1) vp by auto
  next
    case (Inr s')
    then have "fst (snd s') = []" using vp Cons.prems(2) by simp
    moreover have "visitParams st fv ps s' = Inl (CycleDetected p, c)"
      using Cons.prems(1) Inr by simp
    ultimately show ?thesis using Cons.IH by blast
  qed
qed

lemma visitReachable_cycle:
  "visitReachableFnsFromParams st ps countVisitor c0 = Inl (CycleDetected p, c) \<Longrightarrow> isCycle st p"
proof -
  assume a: "visitReachableFnsFromParams st ps countVisitor c0 = Inl (CycleDetected p, c)"
  have cv: "\<forall>f a x. countVisitor f a = Inl x \<longrightarrow> x = TypeError"
    using countVisitor_abort by blast
  from a have "visitParams st countVisitor ps ([], [], c0) = Inl (CycleDetected p, c)"
    by (cases "visitParams st countVisitor ps ([], [], c0)")
       (auto simp: visitReachableFnsFromParams_def)
  then show ?thesis using visitParams_path[of "([], [], c0)" countVisitor st ps p c] cv by simp
qed

text \<open>
  Claim C4. When the traversal comes to a name that is on the current path,
  \<open>visitNode\<close> throws the cycle error, which lists the path from that name back to
  itself. A batch that ends in a cycle error has set no value: the cached values, the
  changed flags and the error list are as before the batch; the error's list is a
  closed path along the edges of the graph; and the session, hence the call of
  \<^verbatim>\<open>set\<close> running it, ends with that error.
\<close>

theorem cycle_aborts_batch:
  "(name \<in> set visitedInPath \<longrightarrow>
      visitNode st fv name (visited, visitedInPath, acc) =
        Inl (CycleDetected (dropWhile (\<lambda>n. n \<noteq> name) visitedInPath @ [name]), acc)) \<and>
   (processBatch st = Inl (CycleDetected p, st') \<longrightarrow>
      value' st' = value' st \<and> valueChanged st' = valueChanged st \<and>
      errors st' = errors st \<and> isCycle st p \<and>
      drain (Suc n) st = Some (Inl (CycleDetected p, st')))"
proof -
  have "value' st' = value' st \<and> valueChanged st' = valueChanged st \<and>
      errors st' = errors st \<and> isCycle st p \<and>
      drain (Suc n) st = Some (Inl (CycleDetected p, st'))"
    if pb: "processBatch st = Inl (CycleDetected p, st')"
  proof -
    from pb obtain b q' c where d: "dequeue (updateBatches st) = Inr (b, q')"
      and v: "visitReachableFnsFromParams (beginBatch b q' st) (map fst b) countVisitor
         (numDirtyDeps (beginBatch b q' st)) = Inl (CycleDetected p, c)"
      and st': "st' = (beginBatch b q' st)\<lparr>numDirtyDeps := c\<rparr>"
      by (rule processBatch_cycle)
    have "isCycle (beginBatch b q' st) p" using v by (rule visitReachable_cycle)
    then have cyc: "isCycle st p" by (simp add: isCycle_def chain_sameGraph[of "beginBatch b q' st" st])
    have ne: "\<not> isEmpty (updateBatches st)"
      using d by (auto simp: dequeue_def isEmpty_def split: if_splits)
    show ?thesis using st' cyc ne pb by simp
  qed
  then show ?thesis by simp
qed

text \<open>The example of the spec: \<^verbatim>\<open>register({a: (b) => ..., b: (a) => ...})\<close>.\<close>

definition cycA :: jsfunction where
  "cycA = \<lparr>addr = 0, fname = ''a'', fparams = [''b''], body = (\<lambda>args. (Fulfilled (JNum 0), []))\<rparr>"

definition cycB :: jsfunction where
  "cycB = \<lparr>addr = 1, fname = ''b'', fparams = [''a''], body = (\<lambda>args. (Fulfilled (JNum 0), []))\<rparr>"

definition cyclicGraph :: dataflow where
  "cyclicGraph = stateOf (registerObject [(''a'', cycA), (''b'', cycB)] dataflow0)"

text \<open>The state in which the session of \<^verbatim>\<open>set({a: 1})\<close> starts on it.\<close>

definition cyclicStart :: dataflow where
  "cyclicStart = (enqueueBatch [(''a'', JNum 1)] cyclicGraph)\<lparr>inProgress := True, errors := []\<rparr>"

theorem cycle_aborts_batch_witness:
  "''a'' \<in> set [''a'', ''b''] \<and>
   visitNode cyclicStart countVisitor ''a'' ([''a'', ''b''], [''a'', ''b''], (\<lambda>_. 0)) =
     Inl (CycleDetected (dropWhile (\<lambda>n. n \<noteq> ''a'') [''a'', ''b''] @ [''a'']), (\<lambda>_. 0)) \<and>
   processBatch cyclicStart =
     Inl (CycleDetected [''a'', ''b'', ''a''], stateOf (processBatch cyclicStart)) \<and>
   value' (stateOf (processBatch cyclicStart)) = value' cyclicStart \<and>
   isCycle cyclicStart [''a'', ''b'', ''a''] \<and>
   drain (Suc 0) cyclicStart =
     Some (Inl (CycleDetected [''a'', ''b'', ''a''], stateOf (processBatch cyclicStart)))"
proof -
  have pb: "processBatch cyclicStart =
     Inl (CycleDetected [''a'', ''b'', ''a''], stateOf (processBatch cyclicStart))"
    by (simp add: cyclicStart_def cyclicGraph_def cycA_def cycB_def run_simps)
  show ?thesis
    using cycle_aborts_batch
            [of "''a''" "[''a'', ''b'']" cyclicStart countVisitor "[''a'', ''b'']" "\<lambda>_. 0"
                "[''a'', ''b'', ''a'']" "stateOf (processBatch cyclicStart)" 0] pb
    by simp
qed

section \<open>C6: \<open>setNodeValue\<close>\<close>









section \<open>The graph of the README\<close>

text \<open>
  \<^verbatim>\<open>register({a: (x, y) => x + y, b: (a, c) => a * c, c: (z) => z * 2, d: (b) => b * b})\<close>,
  on integers; any other arguments give \<^verbatim>\<open>undefined\<close> here.
\<close>

definition readmeA :: jsfunction where
  "readmeA = \<lparr>addr = 0, fname = ''a'', fparams = [''x'', ''y''],
     body = (\<lambda>args. case args of
                      [JNum x, JNum y] \<Rightarrow> (Fulfilled (JNum (x + y)), [])
                    | _ \<Rightarrow> (Fulfilled JUndefined, []))\<rparr>"

definition readmeB :: jsfunction where
  "readmeB = \<lparr>addr = 1, fname = ''b'', fparams = [''a'', ''c''],
     body = (\<lambda>args. case args of
                      [JNum a, JNum c] \<Rightarrow> (Fulfilled (JNum (a * c)), [])
                    | _ \<Rightarrow> (Fulfilled JUndefined, []))\<rparr>"

definition readmeC :: jsfunction where
  "readmeC = \<lparr>addr = 2, fname = ''c'', fparams = [''z''],
     body = (\<lambda>args. case args of
                      [JNum z] \<Rightarrow> (Fulfilled (JNum (z * 2)), [])
                    | _ \<Rightarrow> (Fulfilled JUndefined, []))\<rparr>"

definition readmeD :: jsfunction where
  "readmeD = \<lparr>addr = 3, fname = ''d'', fparams = [''b''],
     body = (\<lambda>args. case args of
                      [JNum b] \<Rightarrow> (Fulfilled (JNum (b * b)), [])
                    | _ \<Rightarrow> (Fulfilled JUndefined, []))\<rparr>"

definition readmeGraph :: dataflow where
  "readmeGraph =
     stateOf (registerObject
                [(''a'', readmeA), (''b'', readmeB), (''c'', readmeC), (''d'', readmeD)] dataflow0)"

lemmas readme_simps = readmeGraph_def readmeA_def readmeB_def readmeC_def readmeD_def

text \<open>The run printed in the README.\<close>

lemma readme_run_values:
  "map (readValue (stateOf (the (dataflow_set 2 [(''x'', JNum 1), (''y'', JNum 2), (''z'', JNum 3)] readmeGraph))))
       [''a'', ''b'', ''c'', ''d''] = [JNum 3, JNum 18, JNum 6, JNum 324]"
  by (simp add: readme_simps run_simps)

text \<open>
  The README run of \<^verbatim>\<open>set({x: 1, y: 2, z: 3})\<close>, step by step: the session's first
  state, the batch dequeued, the counters counted, the batch's values set (which
  leaves the frontier \<open>a\<close>, \<open>c\<close>), and the first round (which leaves the frontier \<open>b\<close>).
\<close>

definition readmeBatch :: batch where
  "readmeBatch = [(''x'', JNum 1), (''y'', JNum 2), (''z'', JNum 3)]"

definition readmeBegun :: dataflow where
  "readmeBegun =
     beginBatch readmeBatch
       (snd (projr (dequeue (updateBatches (enqueueBatch readmeBatch readmeGraph)))))
       ((enqueueBatch readmeBatch readmeGraph)\<lparr>inProgress := True, errors := []\<rparr>)"

definition readmeCounted :: dataflow where
  "readmeCounted =
     counted (projr (visitReachableFnsFromParams readmeBegun (map fst readmeBatch) countVisitor
                       (numDirtyDeps readmeBegun)))
       readmeBegun"

text \<open>The state after the first entry of the batch, \<open>x\<close>, has been set.\<close>

definition readmeAfterX :: dataflow where
  "readmeAfterX = fst (projr (setNodeValue ''x'' (JNum 1) [] readmeCounted))"

definition readmeRound0 :: "dataflow \<times> name list" where
  "readmeRound0 = projr (setBatchValues readmeBatch readmeCounted [])"

definition readmeRound1 :: "dataflow \<times> name list" where
  "readmeRound1 = projr (wavefrontRound (snd readmeRound0) (fst readmeRound0))"

lemmas readmeRound_simps =
  readmeRound1_def readmeRound0_def readmeAfterX_def readmeCounted_def readmeBegun_def
  readmeBatch_def
  beginBatch_def counted_def


section \<open>Order of events\<close>

text \<open>
  \<open>replay\<close> reads a trace against a state: whether a batch is being processed, and the
  batches enqueued and not yet dequeued, oldest first. It accepts a \<open>Dequeued\<close> event only
  when no batch is being processed and the batch is the oldest one pending, and a call
  of a producer or the end of a wavefront only while a batch is being processed.
\<close>

fun replay :: "event list \<Rightarrow> bool \<times> batch list \<Rightarrow> (bool \<times> batch list) option" where
  "replay [] s = Some s"
| "replay (Enqueued b # es) (busy, pending) = replay es (busy, pending @ [b])"
| "replay (Dequeued b # es) (busy, pending) =
     (if \<not> busy \<and> pending \<noteq> [] \<and> hd pending = b then replay es (True, tl pending) else None)"
| "replay (Invoked name args # es) (busy, pending) =
     (if busy then replay es (busy, pending) else None)"
| "replay (Drained # es) (busy, pending) =
     (if busy then replay es (False, pending) else None)"

fun enqueuedOf :: "event list \<Rightarrow> batch list" where
  "enqueuedOf [] = []"
| "enqueuedOf (Enqueued b # es) = b # enqueuedOf es"
| "enqueuedOf (e # es) = enqueuedOf es"

fun dequeuedOf :: "event list \<Rightarrow> batch list" where
  "dequeuedOf [] = []"
| "dequeuedOf (Dequeued b # es) = b # dequeuedOf es"
| "dequeuedOf (e # es) = dequeuedOf es"

text \<open>The queue holds exactly the batches \<open>p\<close>, oldest at the head.\<close>

definition holds :: "queue \<Rightarrow> batch list \<Rightarrow> bool" where
  "holds q p =
     (headIdx q \<le> tailIdx q \<and> map (elts q) [headIdx q..<tailIdx q] = map Some p)"

lemma replay_append:
  "replay (xs @ ys) s = (case replay xs s of None \<Rightarrow> None | Some s' \<Rightarrow> replay ys s')"
proof (induction xs s rule: replay.induct)
  case (1 s)
  show ?case by simp
qed auto

lemma replay_fifo:
  "replay tr s = Some s' \<Longrightarrow> snd s @ enqueuedOf tr = dequeuedOf tr @ snd s'"
proof (induction tr s rule: replay.induct)
  case (3 b es busy pending)
  then show ?case by (cases pending) (auto split: if_splits)
qed (auto split: if_splits)

lemma enqueuedOf_append: "enqueuedOf (xs @ ys) = enqueuedOf xs @ enqueuedOf ys"
  by (induction xs rule: enqueuedOf.induct) auto

lemma dequeuedOf_append: "dequeuedOf (xs @ ys) = dequeuedOf xs @ dequeuedOf ys"
  by (induction xs rule: dequeuedOf.induct) auto

lemma dequeuedOf_mem: "b \<in> set (dequeuedOf tr) \<longleftrightarrow> Dequeued b \<in> set tr"
  by (induction tr rule: dequeuedOf.induct) auto

lemma holds_enqueue: "holds q p \<Longrightarrow> holds (enqueue b q) (p @ [b])"
  by (auto simp: holds_def enqueue_def)

lemma holds_dequeue:
  assumes "holds q p" "\<not> isEmpty q"
  shows "\<exists>b p'. p = b # p' \<and> dequeue q = Inr (b, q\<lparr>headIdx := headIdx q + 1\<rparr>) \<and>
           holds (q\<lparr>headIdx := headIdx q + 1\<rparr>) p'"
proof -
  from assms have lt: "headIdx q < tailIdx q" by (auto simp: holds_def isEmpty_def)
  then have up: "[headIdx q..<tailIdx q] = headIdx q # [Suc (headIdx q)..<tailIdx q]"
    by (rule upt_conv_Cons)
  from assms(1) up obtain b p' where p: "p = b # p'" and b: "elts q (headIdx q) = Some b"
    and r: "map (elts q) [Suc (headIdx q)..<tailIdx q] = map Some p'"
    by (cases p) (auto simp: holds_def)
  show ?thesis using p b r lt by (auto simp: dequeue_def holds_def)
qed

lemma holds_empty: "holds q p \<Longrightarrow> isEmpty q \<longleftrightarrow> p = []"
  by (auto simp: holds_def isEmpty_def)

lemma holds_newQueue: "holds newQueue []"
  by (simp add: holds_def newQueue_def)

text \<open>
  \<open>busyStep st st'\<close>: from \<open>st\<close> to \<open>st'\<close> the trace has grown by calls of producers and by
  the batches they enqueued, and the queue by those batches, at its tail.
\<close>

definition busySeg :: "event list \<Rightarrow> batch list \<Rightarrow> bool" where
  "busySeg tr bs = (\<forall>p. replay tr (True, p) = Some (True, p @ bs))"

definition busyStep :: "dataflow \<Rightarrow> dataflow \<Rightarrow> bool" where
  "busyStep st st' =
     (\<exists>tr bs. trace st' = trace st @ tr \<and> busySeg tr bs \<and> dequeuedOf tr = [] \<and>
               (\<forall>p. holds (updateBatches st) p \<longrightarrow> holds (updateBatches st') (p @ bs)))"

lemma busySeg_Nil: "busySeg [] []"
  by (simp add: busySeg_def)

lemma busySeg_append: "busySeg t1 b1 \<Longrightarrow> busySeg t2 b2 \<Longrightarrow> busySeg (t1 @ t2) (b1 @ b2)"
  by (simp add: busySeg_def replay_append)

lemma busySeg_enqueued: "busySeg (map Enqueued bs) bs"
  unfolding busySeg_def
proof (induction bs)
  case Nil
  show ?case by simp
next
  case (Cons b bs)
  show ?case using Cons.IH by simp
qed

lemma busySeg_invoked: "busySeg tr bs \<Longrightarrow> busySeg (Invoked n a # tr) bs"
  by (simp add: busySeg_def)

lemma busyStep_refl [simp]: "busyStep st st"
  unfolding busyStep_def using busySeg_Nil by (intro exI[of _ "[]"]) auto

lemma busyStep_sameQueue: "sameQueue st st' \<Longrightarrow> busyStep st st'"
  unfolding busyStep_def sameQueue_def using busySeg_Nil by (intro exI[of _ "[]"]) auto

lemma busyStep_trans:
  assumes "busyStep a b" "busyStep b c"
  shows "busyStep a c"
proof -
  from assms(1) obtain t1 b1 where 1: "trace b = trace a @ t1" "busySeg t1 b1" "dequeuedOf t1 = []"
    "\<forall>p. holds (updateBatches a) p \<longrightarrow> holds (updateBatches b) (p @ b1)"
    unfolding busyStep_def by blast
  from assms(2) obtain t2 b2 where 2: "trace c = trace b @ t2" "busySeg t2 b2" "dequeuedOf t2 = []"
    "\<forall>p. holds (updateBatches b) p \<longrightarrow> holds (updateBatches c) (p @ b2)"
    unfolding busyStep_def by blast
  have "trace c = trace a @ (t1 @ t2)" using 1(1) 2(1) by simp
  moreover have "busySeg (t1 @ t2) (b1 @ b2)" using 1(2) 2(2) by (rule busySeg_append)
  moreover have "dequeuedOf (t1 @ t2) = []" using 1(3) 2(3) by (simp add: dequeuedOf_append)
  moreover have "\<forall>p. holds (updateBatches a) p \<longrightarrow> holds (updateBatches c) (p @ (b1 @ b2))"
    using 1(4) 2(4) by (metis append.assoc)
  ultimately show ?thesis unfolding busyStep_def by blast
qed

lemma fold_enqueueBatch_queue:
  "trace (fold enqueueBatch bs st) = trace st @ map Enqueued bs \<and>
   (\<forall>p. holds (updateBatches st) p \<longrightarrow> holds (updateBatches (fold enqueueBatch bs st)) (p @ bs))"
proof (induction bs arbitrary: st)
  case Nil
  show ?case by simp
next
  case (Cons b bs)
  have t: "trace (enqueueBatch b st) = trace st @ [Enqueued b]" by (simp add: enqueueBatch_def)
  have h: "holds (updateBatches st) p \<Longrightarrow> holds (updateBatches (enqueueBatch b st)) (p @ [b])" for p
    by (simp add: enqueueBatch_def holds_enqueue)
  have "holds (updateBatches (fold enqueueBatch bs (enqueueBatch b st))) (p @ b # bs)"
    if "holds (updateBatches st) p" for p
    using Cons.IH[of "enqueueBatch b st"] h[OF that] by (metis append.assoc append_Cons append_Nil)
  then show ?case using Cons.IH[of "enqueueBatch b st"] t by simp
qed

lemma dequeuedOf_enqueued [simp]: "dequeuedOf (map Enqueued bs) = []"
  by (induction bs) auto

lemma enqueuedOf_enqueued [simp]: "enqueuedOf (map Enqueued bs) = bs"
  by (induction bs) auto

lemma launchNode_busy: "busyStep st (endState (launchNode name st))"
proof (cases "map_of (nameToFn st) name")
  case None
  then show ?thesis by (simp add: launchNode_def)
next
  case (Some fn)
  note f = Some
  show ?thesis
  proof (cases "map_of (nodeToUpstreamNodes st) name")
    case None
    then show ?thesis using f by (simp add: launchNode_def)
  next
    case (Some ps)
    let ?args = "map (readValue st) ps"
    let ?bs = "snd (body fn ?args)"
    let ?st0 = "st\<lparr>trace := trace st @ [Invoked name ?args]\<rparr>"
    let ?st1 = "fold enqueueBatch ?bs ?st0"
    show ?thesis
    proof (cases "list_ex (readChanged st) ps")
      case False
      then show ?thesis using f Some by (simp add: launchNode_def Let_def)
    next
      case True
      have e: "endState (launchNode name st) = ?st1"
        using f Some True by (simp add: launchNode_def Let_def split: outcome.splits)
      have "trace ?st1 = trace st @ (Invoked name ?args # map Enqueued ?bs)"
        using fold_enqueueBatch_queue[of ?bs ?st0] by simp
      moreover have "busySeg (Invoked name ?args # map Enqueued ?bs) ?bs"
        by (intro busySeg_invoked busySeg_enqueued)
      moreover have "\<forall>p. holds (updateBatches st) p \<longrightarrow> holds (updateBatches ?st1) (p @ ?bs)"
        using fold_enqueueBatch_queue[of ?bs ?st0] by simp
      ultimately show ?thesis unfolding e busyStep_def by (intro exI conjI) auto
    qed
  qed
qed

lemma launch_busy: "busyStep st (endState (launch names st calls))"
proof (induction names arbitrary: st calls)
  case Nil
  show ?case by simp
next
  case (Cons n names)
  show ?case
  proof (cases "launchNode n st")
    case (Inl e)
    then show ?thesis using launchNode_busy[of st n] by (cases e) simp
  next
    case (Inr r)
    have eq: "launch (n # names) st calls = launch names (fst r) (calls @ [snd r])"
      using Inr by simp
    have "busyStep st (fst r)" using launchNode_busy[of st n] Inr by (cases r) simp
    then show ?thesis unfolding eq using Cons.IH by (rule busyStep_trans)
  qed
qed

lemma wavefrontRound_busy: "busyStep st (endState (wavefrontRound dirty st))"
proof (cases "launch dirty st []")
  case (Inl e)
  then show ?thesis using launch_busy[of st dirty "[]"]
    by (cases e) (simp add: wavefrontRound_def)
next
  case (Inr r)
  obtain st1 calls where r: "r = (st1, calls)" by (cases r)
  have b1: "busyStep st st1" using launch_busy[of st dirty "[]"] Inr r by simp
  show ?thesis
  proof (cases "list_ex (\<lambda>c. snd (snd c) = Pending) calls")
    case True
    then show ?thesis using Inr r b1 by (simp add: wavefrontRound_def)
  next
    case False
    then have eq: "wavefrontRound dirty st = settle calls st1 []"
      using Inr r by (simp add: wavefrontRound_def)
    have "busyStep st1 (endState (settle calls st1 []))"
      using settle_frame[of st1 calls "[]"] by (simp add: busyStep_sameQueue)
    with b1 show ?thesis unfolding eq by (rule busyStep_trans)
  qed
qed

lemma wavefront_busy: "busyStep st (stateOf (wavefront dirty st))"
proof (induction dirty st rule: wavefront.induct)
  case (1 dirty st)
  show ?case
  proof (cases "dirty = []")
    case True
    then show ?thesis by (simp add: wavefront.simps)
  next
    case False
    show ?thesis
    proof (cases "wavefrontRound dirty st")
      case (Inl e)
      then show ?thesis using False wavefrontRound_busy[of st dirty]
        by (cases e) (simp add: wavefront.simps[of dirty])
    next
      case (Inr r)
      have eq: "wavefront dirty st = wavefront (snd r) (fst r)"
        using False Inr by (simp add: wavefront.simps[of dirty])
      have "busyStep st (fst r)" using wavefrontRound_busy[of st dirty] Inr by (cases r) simp
      then show ?thesis unfolding eq using "1.IH"[OF False Inr] by (rule busyStep_trans)
    qed
  qed
qed

lemma dequeue_Inr:
  assumes "dequeue q = Inr (b, q')" "holds q p"
  shows "\<exists>p'. p = b # p' \<and> holds q' p'"
proof -
  from assms(1) have "\<not> isEmpty q" by (auto simp: dequeue_def isEmpty_def split: if_splits)
  from holds_dequeue[OF assms(2) this] assms(1) show ?thesis by auto
qed

lemma after_dequeue:
  assumes "holds q' p'" "busyStep (counted c (beginBatch b q' st)) s"
  shows "\<exists>tr bs. trace s = trace st @ Dequeued b # tr \<and> busySeg tr bs \<and> dequeuedOf tr = [] \<and>
           holds (updateBatches s) (p' @ bs)"
proof -
  from assms(2) obtain tr bs where
    "trace s = trace (counted c (beginBatch b q' st)) @ tr" "busySeg tr bs" "dequeuedOf tr = []"
    "\<forall>p. holds (updateBatches (counted c (beginBatch b q' st))) p \<longrightarrow> holds (updateBatches s) (p @ bs)"
    unfolding busyStep_def by blast
  then show ?thesis using assms(1) by (intro exI[of _ tr] exI[of _ bs]) simp
qed

text \<open>
  One batch: its events begin with its \<open>Dequeued\<close>, taken from the head of the queue, go
  on with calls and enqueued batches only, and end, if the batch gets through, with
  \<open>Drained\<close>.
\<close>

lemma processBatch_order:
  assumes "holds (updateBatches st) p"
  shows "\<exists>tr s'. trace (stateOf (processBatch st)) = trace st @ tr \<and>
           replay tr (False, p) = Some s' \<and>
           holds (updateBatches (stateOf (processBatch st))) (snd s') \<and>
           (isl (processBatch st) \<or> (\<not> fst s' \<and> tr \<noteq> [] \<and> last tr = Drained))"
proof (cases st rule: processBatch_cases)
  case (Empty e)
  then show ?thesis using assms by (intro exI[of _ "[]"] exI[of _ "(False, p)"]) simp
next
  case (Visit b q' e c)
  from dequeue_Inr[OF Visit(1) assms] obtain p' where p: "p = b # p'" "holds q' p'" by blast
  show ?thesis using Visit(3) p
    by (intro exI[of _ "[Dequeued b]"] exI[of _ "(True, p')"]) simp
next
  case (Values b q' counts e s)
  from dequeue_Inr[OF Values(1) assms] obtain p' where p: "p = b # p'" "holds q' p'" by blast
  have "busyStep (counted counts (beginBatch b q' st)) s"
    using setBatchValues_frame[of "counted counts (beginBatch b q' st)" b "[]"] Values(3)
    by (simp add: busyStep_sameQueue)
  from after_dequeue[OF p(2) this] obtain tr bs where
    t: "trace s = trace st @ Dequeued b # tr" "busySeg tr bs" "holds (updateBatches s) (p' @ bs)"
    by blast
  show ?thesis using Values(4) p t
    by (intro exI[of _ "Dequeued b # tr"] exI[of _ "(True, p' @ bs)"]) (simp add: busySeg_def)
next
  case (Wave b q' counts s dirty e s')
  from dequeue_Inr[OF Wave(1) assms] obtain p' where p: "p = b # p'" "holds q' p'" by blast
  have "busyStep (counted counts (beginBatch b q' st)) s"
    using setBatchValues_frame[of "counted counts (beginBatch b q' st)" b "[]"] Wave(3)
    by (simp add: busyStep_sameQueue)
  moreover have "busyStep s s'" using wavefront_busy[of s dirty] Wave(4) by simp
  ultimately have "busyStep (counted counts (beginBatch b q' st)) s'" by (rule busyStep_trans)
  from after_dequeue[OF p(2) this] obtain tr bs where
    t: "trace s' = trace st @ Dequeued b # tr" "busySeg tr bs" "holds (updateBatches s') (p' @ bs)"
    by blast
  show ?thesis using Wave(5) p t
    by (intro exI[of _ "Dequeued b # tr"] exI[of _ "(True, p' @ bs)"]) (simp add: busySeg_def)
next
  case (Done b q' counts s dirty s')
  from dequeue_Inr[OF Done(1) assms] obtain p' where p: "p = b # p'" "holds q' p'" by blast
  have "busyStep (counted counts (beginBatch b q' st)) s"
    using setBatchValues_frame[of "counted counts (beginBatch b q' st)" b "[]"] Done(3)
    by (simp add: busyStep_sameQueue)
  moreover have "busyStep s s'" using wavefront_busy[of s dirty] Done(4) by simp
  ultimately have "busyStep (counted counts (beginBatch b q' st)) s'" by (rule busyStep_trans)
  from after_dequeue[OF p(2) this] obtain tr bs where
    t: "trace s' = trace st @ Dequeued b # tr" "busySeg tr bs" "holds (updateBatches s') (p' @ bs)"
    by blast
  have r: "replay (Dequeued b # tr @ [Drained]) (False, p) = Some (False, p' @ bs)"
    using p t(2) by (simp add: busySeg_def replay_append)
  show ?thesis using Done(5) t r
    by (intro exI[of _ "Dequeued b # tr @ [Drained]"] exI[of _ "(False, p' @ bs)"]) simp
qed

lemma drain_order:
  "holds (updateBatches st) p \<Longrightarrow> drain n st = Some r \<Longrightarrow>
     \<exists>tr s'. trace (stateOf r) = trace st @ tr \<and> replay tr (False, p) = Some s' \<and>
             holds (updateBatches (stateOf r)) (snd s') \<and>
             (isl r \<or> (s' = (False, []) \<and> (tr = [] \<or> last tr = Drained)))"
proof (induction n arbitrary: st p)
  case 0
  then show ?case by simp
next
  case (Suc n)
  show ?case
  proof (cases "isEmpty (updateBatches st)")
    case True
    then have "r = Inr st" "p = []" using Suc.prems holds_empty by auto
    then show ?thesis using Suc.prems(1)
      by (intro exI[of _ "[]"] exI[of _ "(False, [])"]) simp
  next
    case False
    from processBatch_order[OF Suc.prems(1)] obtain tr1 s1 where
      1: "trace (stateOf (processBatch st)) = trace st @ tr1" "replay tr1 (False, p) = Some s1"
         "holds (updateBatches (stateOf (processBatch st))) (snd s1)"
         "isl (processBatch st) \<or> (\<not> fst s1 \<and> tr1 \<noteq> [] \<and> last tr1 = Drained)"
      by blast
    show ?thesis
    proof (cases "processBatch st")
      case (Inl e)
      then have "r = Inl e" using Suc.prems(2) False by simp
      then show ?thesis using 1 Inl
        by (intro exI[of _ tr1] exI[of _ s1]) simp
    next
      case (Inr st1)
      then have d: "drain n st1 = Some r" using Suc.prems(2) False by simp
      have s1: "s1 = (False, snd s1)" "tr1 \<noteq> []" "last tr1 = Drained"
        using 1(4) Inr by (cases s1; simp)+
      have h1: "holds (updateBatches st1) (snd s1)" using 1(3) Inr by simp
      from Suc.IH[OF h1 d] obtain tr2 s2 where
        2: "trace (stateOf r) = trace st1 @ tr2" "replay tr2 (False, snd s1) = Some s2"
           "holds (updateBatches (stateOf r)) (snd s2)"
           "isl r \<or> (s2 = (False, []) \<and> (tr2 = [] \<or> last tr2 = Drained))"
        by blast
      have t: "trace (stateOf r) = trace st @ (tr1 @ tr2)" using 1(1) 2(1) Inr by simp
      have rp: "replay (tr1 @ tr2) (False, p) = Some s2"
        using 1(2) 2(2) s1(1) by (simp add: replay_append)
      have l: "tr1 @ tr2 = [] \<or> last (tr1 @ tr2) = Drained" if "tr2 = [] \<or> last tr2 = Drained"
        using that s1(2,3) by (cases "tr2 = []") auto
      show ?thesis using t rp 2(3,4) l
        by (intro exI[of _ "tr1 @ tr2"] exI[of _ s2]) auto
    qed
  qed
qed

text \<open>
  \<open>orderly st s\<close>: the trace of \<open>st\<close> replays from the beginning to \<open>s\<close>, the queue holds
  the pending batches of \<open>s\<close>, and if no session is active no batch is being processed
  and none is pending. The fresh engine is orderly, and \<^verbatim>\<open>set\<close> keeps it so.
\<close>

definition orderly :: "dataflow \<Rightarrow> bool \<times> batch list \<Rightarrow> bool" where
  "orderly st s =
     (replay (trace st) (False, []) = Some s \<and> holds (updateBatches st) (snd s) \<and>
      (\<not> inProgress st \<longrightarrow> s = (False, [])))"

lemma orderly_dataflow0: "orderly dataflow0 (False, [])"
  by (simp add: orderly_def dataflow0_def holds_newQueue)

lemma register1_orderly:
  "orderly st s \<Longrightarrow> orderly (stateOf (register1 fn fnName st)) s"
  by (auto simp: orderly_def register1_def)

lemma registerObject_orderly:
  "orderly st s \<Longrightarrow> orderly (stateOf (registerObject entries st)) s"
proof (induction entries arbitrary: st)
  case Nil
  then show ?case by simp
next
  case (Cons a entries)
  obtain k f where a: "a = (k, f)" by (cases a)
  show ?case
  proof (cases "register1 f k st")
    case (Inl e)
    then show ?thesis using a register1_orderly[OF Cons.prems, of f k] by simp
  next
    case (Inr st1)
    then have "orderly st1 s" using register1_orderly[OF Cons.prems, of f k] by simp
    from Cons.IH[OF this] show ?thesis using a Inr by simp
  qed
qed

lemma dataflow_set_busy:
  "inProgress st \<Longrightarrow> dataflow_set fuel b st = Some (Inr (enqueueBatch b st))"
  by (simp add: dataflow_set_def Let_def)

lemma dataflow_set_idle:
  assumes "\<not> inProgress st"
  shows "dataflow_set fuel b st =
           (case drain fuel ((enqueueBatch b st)\<lparr>inProgress := True, errors := []\<rparr>) of
              None \<Rightarrow> None
            | Some (Inl e) \<Rightarrow> Some (Inl e)
            | Some (Inr st2) \<Rightarrow> Some (Inr (st2\<lparr>inProgress := False\<rparr>)))"
  using assms by (simp add: dataflow_set_def Let_def)

lemma dataflow_set_order:
  assumes "orderly st s" "dataflow_set fuel b st = Some r"
  shows "\<exists>tr s'. trace (stateOf r) = trace st @ Enqueued b # tr \<and>
           replay (Enqueued b # tr) s = Some s' \<and> orderly (stateOf r) s' \<and>
           (inProgress st \<longrightarrow> tr = []) \<and>
           (\<not> inProgress st \<and> \<not> isl r \<longrightarrow> tr \<noteq> [] \<and> last tr = Drained)"
proof (cases "inProgress st")
  case True
  obtain bz p where s: "s = (bz, p)" by (cases s)
  have r: "r = Inr (enqueueBatch b st)" using assms(2) True by (simp add: dataflow_set_busy)
  have "orderly (enqueueBatch b st) (bz, p @ [b])"
    using assms(1) s True
    by (simp add: orderly_def enqueueBatch_def replay_append holds_enqueue)
  then show ?thesis using r s True
    by (intro exI[of _ "[]"] exI[of _ "(bz, p @ [b])"]) (simp add: enqueueBatch_def)
next
  case False
  then have s: "s = (False, [])" using assms(1) by (simp add: orderly_def)
  let ?st1 = "(enqueueBatch b st)\<lparr>inProgress := True, errors := []\<rparr>"
  have h: "holds (updateBatches ?st1) [b]"
    using assms(1) s holds_enqueue[of "updateBatches st" "[]" b]
    by (simp add: orderly_def enqueueBatch_def)
  have t1: "trace ?st1 = trace st @ [Enqueued b]" by (simp add: enqueueBatch_def)
  from assms(2) False obtain r0 where d: "drain fuel ?st1 = Some r0"
    and r: "r = (case r0 of Inl e \<Rightarrow> Inl e | Inr st2 \<Rightarrow> Inr (st2\<lparr>inProgress := False\<rparr>))"
    by (auto simp: dataflow_set_idle split: option.splits sum.splits)
  from drain_order[OF h d] obtain tr s' where
    o: "trace (stateOf r0) = trace ?st1 @ tr" "replay tr (False, [b]) = Some s'"
       "holds (updateBatches (stateOf r0)) (snd s')"
       "isl r0 \<or> (s' = (False, []) \<and> (tr = [] \<or> last tr = Drained))"
    by blast
  have ip: "inProgress (stateOf r0)" using drain_frame[OF d] by (simp add: sameGraph_def)
  have rep0: "replay (trace st) (False, []) = Some (False, [])"
    using assms(1) s by (simp add: orderly_def)
  have ne: "tr \<noteq> []" if "\<not> isl r0"
  proof
    assume "tr = []"
    then have "s' = (False, [b])" using o(2) by simp
    then show False using o(4) that by (cases r0) auto
  qed
  show ?thesis
  proof (cases r0)
    case (Inl e)
    then have "stateOf r = stateOf r0" "isl r" using r by (cases e; simp)+
    then show ?thesis using o ip rep0 t1 s False
      by (intro exI[of _ tr] exI[of _ s']) (auto simp: orderly_def replay_append)
  next
    case (Inr st2)
    then have r2: "r = Inr (st2\<lparr>inProgress := False\<rparr>)" using r by simp
    have s': "s' = (False, [])" "last tr = Drained" using o(4) Inr ne by auto
    show ?thesis using o(1,2,3) Inr r2 s' rep0 t1 s False ne
      by (intro exI[of _ tr] exI[of _ s']) (auto simp: orderly_def replay_append)
  qed
qed

section \<open>C8: batches one after the other, in arrival order\<close>

text \<open>
  A producer that calls \<^verbatim>\<open>dataflow.set\<close>:
  \<^verbatim>\<open>register({n: (x) => { dataflow.set({y: x}); return x; }, m: (y) => y})\<close>.
\<close>

definition nestN :: jsfunction where
  "nestN = \<lparr>addr = 0, fname = ''n'', fparams = [''x''],
     body = (\<lambda>args. (Fulfilled (hd args), [[(''y'', hd args)]]))\<rparr>"

definition nestM :: jsfunction where
  "nestM = \<lparr>addr = 1, fname = ''m'', fparams = [''y''],
     body = (\<lambda>args. (Fulfilled (hd args), []))\<rparr>"

definition nestGraph :: dataflow where
  "nestGraph = stateOf (registerObject [(''n'', nestN), (''m'', nestM)] dataflow0)"

lemmas nest_simps = nestGraph_def nestN_def nestM_def

text \<open>
  Claim C8. In an orderly state, the events of a call of \<^verbatim>\<open>set\<close> replay: every batch
  is dequeued when no other batch is being processed, that is after the \<open>Drained\<close> of the
  batch before it, and it is the oldest batch pending; producers are called only
  between a batch's \<open>Dequeued\<close> and its \<open>Drained\<close>. So the batches dequeued are, in order,
  the batches enqueued, less those still pending; a batch enqueued by a producer
  is among the pending ones until the wavefront of the current batch has drained. The
  state after the call is orderly again.
\<close>

theorem batches_in_arrival_order:
  assumes "orderly st s" "dataflow_set fuel b st = Some r"
  shows "\<exists>tr s'. trace (stateOf r) = trace st @ tr \<and> replay tr s = Some s' \<and>
           orderly (stateOf r) s' \<and>
           snd s @ enqueuedOf tr = dequeuedOf tr @ snd s' \<and>
           enqueuedOf (trace (stateOf r)) = dequeuedOf (trace (stateOf r)) @ snd s'"
proof -
  from dataflow_set_order[OF assms] obtain tr s' where
    o: "trace (stateOf r) = trace st @ Enqueued b # tr" "replay (Enqueued b # tr) s = Some s'"
       "orderly (stateOf r) s'"
    by blast
  have 1: "snd s @ enqueuedOf (Enqueued b # tr) = dequeuedOf (Enqueued b # tr) @ snd s'"
    using o(2) by (rule replay_fifo)
  have "replay (trace (stateOf r)) (False, []) = Some s'" using o(3) by (simp add: orderly_def)
  from replay_fifo[OF this]
  have 2: "enqueuedOf (trace (stateOf r)) = dequeuedOf (trace (stateOf r)) @ snd s'" by simp
  show ?thesis using o 1 2 by (intro exI[of _ "Enqueued b # tr"] exI[of _ s']) simp
qed

theorem batches_in_arrival_order_witness:
  "orderly nestGraph (False, []) \<and>
   dataflow_set 3 [(''x'', JNum 1)] nestGraph =
     Some (the (dataflow_set 3 [(''x'', JNum 1)] nestGraph)) \<and>
   trace (stateOf (the (dataflow_set 3 [(''x'', JNum 1)] nestGraph))) =
     [Enqueued [(''x'', JNum 1)], Dequeued [(''x'', JNum 1)], Invoked ''n'' [JNum 1],
      Enqueued [(''y'', JNum 1)], Drained,
      Dequeued [(''y'', JNum 1)], Invoked ''m'' [JNum 1], Drained] \<and>
   (\<exists>tr s'. trace (stateOf (the (dataflow_set 3 [(''x'', JNum 1)] nestGraph))) =
              trace nestGraph @ tr \<and>
            replay tr (False, []) = Some s' \<and>
            orderly (stateOf (the (dataflow_set 3 [(''x'', JNum 1)] nestGraph))) s' \<and>
            snd (False, []) @ enqueuedOf tr = dequeuedOf tr @ snd s' \<and>
            enqueuedOf (trace (stateOf (the (dataflow_set 3 [(''x'', JNum 1)] nestGraph)))) =
              dequeuedOf (trace (stateOf (the (dataflow_set 3 [(''x'', JNum 1)] nestGraph)))) @ snd s')"
proof -
  have o: "orderly nestGraph (False, [])"
    unfolding nestGraph_def by (rule registerObject_orderly) (rule orderly_dataflow0)
  have e: "dataflow_set 3 [(''x'', JNum 1)] nestGraph =
     Some (the (dataflow_set 3 [(''x'', JNum 1)] nestGraph))"
    by (simp add: nest_simps run_simps)
  have t: "trace (stateOf (the (dataflow_set 3 [(''x'', JNum 1)] nestGraph))) =
     [Enqueued [(''x'', JNum 1)], Dequeued [(''x'', JNum 1)], Invoked ''n'' [JNum 1],
      Enqueued [(''y'', JNum 1)], Drained,
      Dequeued [(''y'', JNum 1)], Invoked ''m'' [JNum 1], Drained]"
    by (simp add: nest_simps run_simps)
  from batches_in_arrival_order[OF o e] o e t show ?thesis by blast
qed

section \<open>C9: after a session has aborted\<close>

text \<open>Calls of \<^verbatim>\<open>set\<close> one after the other, each awaited.\<close>

fun set_calls :: "nat \<Rightarrow> batch list \<Rightarrow> dataflow \<Rightarrow> ((abort \<times> dataflow) + dataflow) option" where
  "set_calls fuel [] st = Some (Inr st)"
| "set_calls fuel (b # bs) st =
     (case dataflow_set fuel b st of
        Some (Inr st') \<Rightarrow> set_calls fuel bs st'
      | r \<Rightarrow> r)"

lemma set_calls_busy:
  "inProgress st \<Longrightarrow> set_calls fuel bs st = Some (Inr (fold enqueueBatch bs st))"
  by (induction bs arbitrary: st) (simp_all add: dataflow_set_busy)

lemma fold_enqueueBatch_head:
  "headIdx (updateBatches (fold enqueueBatch bs st)) = headIdx (updateBatches st)"
  by (induction bs arbitrary: st) (simp_all add: enqueueBatch_def enqueue_def)

text \<open>
  Claim C9. If the call of \<^verbatim>\<open>set\<close> that started a session does not return normally
  (an exception from the traversal, the Promise guard or a producer, or a producer
  that never settles), \<^verbatim>\<open>inProgress\<close> is still true afterwards. Every later call of
  \<^verbatim>\<open>set\<close> then only enqueues its batch and is fulfilled: the flag stays true,
  nothing is ever dequeued, and cached values, changed flags and errors stay as they are.
\<close>

theorem session_abort_leaves_engine_stuck:
  assumes "\<not> inProgress st" "dataflow_set fuel b st = Some (Inl (e, st'))"
  shows "inProgress st' \<and>
         set_calls fuel' bs st' = Some (Inr (fold enqueueBatch bs st')) \<and>
         inProgress (fold enqueueBatch bs st') \<and>
         headIdx (updateBatches (fold enqueueBatch bs st')) = headIdx (updateBatches st') \<and>
         trace (fold enqueueBatch bs st') = trace st' @ map Enqueued bs \<and>
         value' (fold enqueueBatch bs st') = value' st' \<and>
         valueChanged (fold enqueueBatch bs st') = valueChanged st' \<and>
         errors (fold enqueueBatch bs st') = errors st'"
proof -
  let ?st1 = "(enqueueBatch b st)\<lparr>inProgress := True, errors := []\<rparr>"
  from assms have "drain fuel ?st1 = Some (Inl (e, st'))"
    by (auto simp: dataflow_set_idle split: option.splits sum.splits)
  from drain_frame[OF this] have ip: "inProgress st'" by (simp add: sameGraph_def)
  show ?thesis
    using ip set_calls_busy[OF ip] fold_enqueueBatch_head fold_enqueueBatch_queue[of bs st']
    by simp
qed

theorem session_abort_leaves_engine_stuck_witness:
  "\<not> inProgress cyclicGraph \<and>
   dataflow_set 1 [(''a'', JNum 1)] cyclicGraph =
     Some (Inl (CycleDetected [''a'', ''b'', ''a''],
                stateOf (the (dataflow_set 1 [(''a'', JNum 1)] cyclicGraph)))) \<and>
   inProgress (stateOf (the (dataflow_set 1 [(''a'', JNum 1)] cyclicGraph))) \<and>
   set_calls 5 [[(''x'', JNum 2)], [(''x'', JNum 3)]]
       (stateOf (the (dataflow_set 1 [(''a'', JNum 1)] cyclicGraph))) =
     Some (Inr (fold enqueueBatch [[(''x'', JNum 2)], [(''x'', JNum 3)]]
                  (stateOf (the (dataflow_set 1 [(''a'', JNum 1)] cyclicGraph)))))"
proof -
  have a: "\<not> inProgress cyclicGraph"
    by (simp add: cyclicGraph_def cycA_def cycB_def run_simps)
  have e: "dataflow_set 1 [(''a'', JNum 1)] cyclicGraph =
     Some (Inl (CycleDetected [''a'', ''b'', ''a''],
                stateOf (the (dataflow_set 1 [(''a'', JNum 1)] cyclicGraph))))"
    by (simp add: cyclicGraph_def cycA_def cycB_def run_simps)
  from session_abort_leaves_engine_stuck[OF a e, of 5 "[[(''x'', JNum 2)], [(''x'', JNum 3)]]"] a e
  show ?thesis by simp
qed

section \<open>C2: when the promise of \<^verbatim>\<open>set\<close> resolves\<close>

text \<open>
  The run of \<^verbatim>\<open>set({x: 1})\<close> on the graph \<open>nestGraph\<close>, whose producer \<open>n\<close> calls
  \<^verbatim>\<open>dataflow.set({y: x})\<close>, step by step: the batch dequeued, the counters counted, the
  batch's values set (which leaves the frontier \<open>n\<close>), and the state in which the body
  of \<open>n\<close> runs.
\<close>

definition nestBatch :: batch where
  "nestBatch = [(''x'', JNum 1)]"

definition nestBegun :: dataflow where
  "nestBegun =
     beginBatch nestBatch
       (snd (projr (dequeue (updateBatches (enqueueBatch nestBatch nestGraph)))))
       ((enqueueBatch nestBatch nestGraph)\<lparr>inProgress := True, errors := []\<rparr>)"

definition nestCounted :: dataflow where
  "nestCounted =
     counted (projr (visitReachableFnsFromParams nestBegun (map fst nestBatch) countVisitor
                       (numDirtyDeps nestBegun)))
       nestBegun"

definition nestRound0 :: "dataflow \<times> name list" where
  "nestRound0 = projr (setBatchValues nestBatch nestCounted [])"

definition nestAtCall :: dataflow where
  "nestAtCall = (fst nestRound0)\<lparr>trace := trace (fst nestRound0) @ [Invoked ''n'' [JNum 1]]\<rparr>"

lemmas nestRound_simps =
  nestAtCall_def nestRound0_def nestCounted_def nestBegun_def nestBatch_def
  beginBatch_def counted_def

lemma nestRound0_is_the_run:
  "processBatch ((enqueueBatch nestBatch nestGraph)\<lparr>inProgress := True, errors := []\<rparr>) =
     (case wavefront (snd nestRound0) (fst nestRound0) of
        Inl e \<Rightarrow> Inl e
      | Inr st' \<Rightarrow> Inr (st'\<lparr>trace := trace st' @ [Drained]\<rparr>)) \<and>
   snd nestRound0 = [''n''] \<and>
   trace (fst nestRound0) = [Enqueued nestBatch, Dequeued nestBatch]"
  by (simp add: nestRound_simps nest_simps run_simps)

text \<open>
  Claim C2 says that the handle of every call resolves only after the call's batch has
  been dequeued and processed, also for a call made while a session is active. The call
  \<^verbatim>\<open>dataflow.set({y: 1})\<close> that the producer \<open>n\<close> makes in the run above is such a call.
  It is fulfilled at once, and leaves the engine in the state the call of \<open>n\<close> leaves it
  in: the batch \<^verbatim>\<open>{y: 1}\<close> pending in the queue, only the batch of the session
  dequeued, and \<open>y\<close> without a cached value. It could not wait: its batch is dequeued
  by the loop that is calling \<open>n\<close>.
\<close>

theorem nested_set_returns_at_once_counterexample:
  "inProgress nestAtCall \<and>
   dataflow_set 1 [(''y'', JNum 1)] nestAtCall =
     Some (Inr (endState (launchNode ''n'' (fst nestRound0)))) \<and>
   holds (updateBatches (endState (launchNode ''n'' (fst nestRound0)))) [[(''y'', JNum 1)]] \<and>
   dequeuedOf (trace (endState (launchNode ''n'' (fst nestRound0)))) = [nestBatch] \<and>
   value' (endState (launchNode ''n'' (fst nestRound0))) ''y'' = None"
  by (simp add: nestRound_simps nest_simps run_simps holds_def endState_def)

text \<open>
  A call made from outside a producer while a session is active takes the same branch
  of \<^verbatim>\<open>set\<close>. In the README run, while the engine awaits the promises of the second
  round, \<^verbatim>\<open>await dataflow.get("d")\<close> returns \<^verbatim>\<open>undefined\<close>, where the finished run has
  324. The README has the caller of \<^verbatim>\<open>set\<close> wait for the changes to finish propagating,
  and \<^verbatim>\<open>get\<close> is commented \<^verbatim>\<open>// Wait for dataflow to end\<close>; the amended claim below
  says nothing about such a call.
\<close>

definition readmeAwaiting :: dataflow where
  "readmeAwaiting = endState (launch (snd readmeRound1) (fst readmeRound1) [])"

lemma get_during_session_is_stale:
  "inProgress readmeAwaiting \<and>
   last (trace readmeAwaiting) = Invoked ''b'' [JNum 3, JNum 6] \<and>
   dataflow_get 1 ''d'' readmeAwaiting \<noteq> None \<and>
   \<not> isl (the (dataflow_get 1 ''d'' readmeAwaiting)) \<and>
   fst (projr (the (dataflow_get 1 ''d'' readmeAwaiting))) = JUndefined \<and>
   readValue (stateOf (the (dataflow_set 2 readmeBatch readmeGraph))) ''d'' = JNum 324"
  by (simp add: readmeAwaiting_def dataflow_get_def endState_def
        readmeRound_simps readme_simps run_simps)

lemma launchNode_called:
  assumes "map_of (nameToFn st) name = Some fn" "map_of (nodeToUpstreamNodes st) name = Some ps"
    "list_ex (readChanged st) ps"
  shows "endState (launchNode name st) =
           fold enqueueBatch (snd (body fn (map (readValue st) ps)))
             (st\<lparr>trace := trace st @ [Invoked name (map (readValue st) ps)]\<rparr>)"
  using assms by (simp add: launchNode_def Let_def endState_def split: outcome.splits)

text \<open>
  Claim C2, amended. A call of \<^verbatim>\<open>set\<close> that a producer makes while the session that
  called it is active only enqueues its batch and is fulfilled at once: the state the
  producer's call leaves is the state its calls of \<^verbatim>\<open>set\<close> leave, each of them
  fulfilled, with their batches pending at the tail of the queue and none dequeued. A
  call of \<^verbatim>\<open>set\<close> made while no session is active, in an orderly state, is fulfilled only
  after its batch has been dequeued and the wavefront of the last batch has drained,
  with the queue empty and the session over.
\<close>

theorem set_resolves_after_own_session:
  "(inProgress st \<and> holds (updateBatches st) p \<and>
    map_of (nameToFn st) name = Some fn \<and> map_of (nodeToUpstreamNodes st) name = Some ps \<and>
    list_ex (readChanged st) ps \<and> body fn (map (readValue st) ps) = (oc, bs) \<longrightarrow>
      set_calls fuel bs (st\<lparr>trace := trace st @ [Invoked name (map (readValue st) ps)]\<rparr>) =
        Some (Inr (endState (launchNode name st))) \<and>
      holds (updateBatches (endState (launchNode name st))) (p @ bs) \<and>
      dequeuedOf (drop (length (trace st)) (trace (endState (launchNode name st)))) = []) \<and>
   (\<not> inProgress st \<and> orderly st s \<and> dataflow_set fuel b st = Some (Inr st') \<longrightarrow>
      isEmpty (updateBatches st') \<and> \<not> inProgress st' \<and>
      Dequeued b \<in> set (drop (length (trace st)) (trace st')) \<and>
      last (trace st') = Drained)"
proof -
  have nested: "set_calls fuel bs (st\<lparr>trace := trace st @ [Invoked name (map (readValue st) ps)]\<rparr>) =
        Some (Inr (endState (launchNode name st))) \<and>
      holds (updateBatches (endState (launchNode name st))) (p @ bs) \<and>
      dequeuedOf (drop (length (trace st)) (trace (endState (launchNode name st)))) = []"
    if ip: "inProgress st" and h: "holds (updateBatches st) p"
      and f: "map_of (nameToFn st) name = Some fn"
      and u: "map_of (nodeToUpstreamNodes st) name = Some ps"
      and c: "list_ex (readChanged st) ps" and r: "body fn (map (readValue st) ps) = (oc, bs)"
  proof -
    let ?st0 = "st\<lparr>trace := trace st @ [Invoked name (map (readValue st) ps)]\<rparr>"
    have e: "endState (launchNode name st) = fold enqueueBatch bs ?st0"
      using launchNode_called[OF f u c] r by simp
    have s: "set_calls fuel bs ?st0 = Some (Inr (fold enqueueBatch bs ?st0))"
      by (rule set_calls_busy) (simp add: ip)
    have q: "trace (fold enqueueBatch bs ?st0) = trace ?st0 @ map Enqueued bs"
      "holds (updateBatches (fold enqueueBatch bs ?st0)) (p @ bs)"
      using fold_enqueueBatch_queue[of bs ?st0] h by simp_all
    show ?thesis using e s q by simp
  qed
  have idle: "isEmpty (updateBatches st') \<and> \<not> inProgress st' \<and>
      Dequeued b \<in> set (drop (length (trace st)) (trace st')) \<and>
      last (trace st') = Drained"
    if ip: "\<not> inProgress st" and o: "orderly st s" and d: "dataflow_set fuel b st = Some (Inr st')"
  proof -
    from dataflow_set_order[OF o d] ip obtain tr s' where
      t: "trace st' = trace st @ Enqueued b # tr" "replay (Enqueued b # tr) s = Some s'"
         "orderly st' s'" "tr \<noteq> []" "last tr = Drained"
      by auto
    from d ip obtain st2 where "st' = st2\<lparr>inProgress := False\<rparr>"
      by (auto simp: dataflow_set_idle split: option.splits sum.splits)
    then have nip: "\<not> inProgress st'" by simp
    then have s': "s' = (False, [])" using t(3) by (simp add: orderly_def)
    have s: "s = (False, [])" using o ip by (simp add: orderly_def)
    have e: "isEmpty (updateBatches st')" using t(3) s' holds_empty by (auto simp: orderly_def)
    from replay_fifo[OF t(2)] s s' have "b \<in> set (dequeuedOf tr)"
      by (simp add: dequeuedOf_append[symmetric]) (metis list.set_intros(1))
    then have "Dequeued b \<in> set tr" by (simp add: dequeuedOf_mem)
    then show ?thesis using e nip t(1,4,5) by simp
  qed
  show ?thesis using nested idle by blast
qed

theorem set_resolves_after_own_session_witness:
  "inProgress (fst nestRound0) \<and>
   holds (updateBatches (fst nestRound0)) [] \<and>
   map_of (nameToFn (fst nestRound0)) ''n'' = Some nestN \<and>
   map_of (nodeToUpstreamNodes (fst nestRound0)) ''n'' = Some [''x''] \<and>
   list_ex (readChanged (fst nestRound0)) [''x''] \<and>
   body nestN (map (readValue (fst nestRound0)) [''x'']) =
     (Fulfilled (JNum 1), [[(''y'', JNum 1)]]) \<and>
   set_calls 1 [[(''y'', JNum 1)]] nestAtCall =
     Some (Inr (endState (launchNode ''n'' (fst nestRound0)))) \<and>
   holds (updateBatches (endState (launchNode ''n'' (fst nestRound0)))) ([] @ [[(''y'', JNum 1)]]) \<and>
   \<not> inProgress nestGraph \<and> orderly nestGraph (False, []) \<and>
   dataflow_set 3 [(''x'', JNum 1)] nestGraph =
     Some (Inr (stateOf (the (dataflow_set 3 [(''x'', JNum 1)] nestGraph)))) \<and>
   isEmpty (updateBatches (stateOf (the (dataflow_set 3 [(''x'', JNum 1)] nestGraph)))) \<and>
   Dequeued [(''x'', JNum 1)] \<in>
     set (drop (length (trace nestGraph))
            (trace (stateOf (the (dataflow_set 3 [(''x'', JNum 1)] nestGraph)))))"
proof -
  have a: "inProgress (fst nestRound0)"
    by (simp add: nestRound_simps nest_simps run_simps)
  have h: "holds (updateBatches (fst nestRound0)) []"
    by (simp add: nestRound_simps nest_simps run_simps holds_def)
  have f: "map_of (nameToFn (fst nestRound0)) ''n'' = Some nestN"
    by (simp add: nestRound_simps nest_simps run_simps)
  have u: "map_of (nodeToUpstreamNodes (fst nestRound0)) ''n'' = Some [''x'']"
    by (simp add: nestRound_simps nest_simps run_simps)
  have g: "list_ex (readChanged (fst nestRound0)) [''x'']"
    by (simp add: nestRound_simps nest_simps run_simps)
  have r: "body nestN (map (readValue (fst nestRound0)) [''x'']) =
     (Fulfilled (JNum 1), [[(''y'', JNum 1)]])"
    by (simp add: nestRound_simps nest_simps run_simps)
  have v: "map (readValue (fst nestRound0)) [''x''] = [JNum 1]"
    by (simp add: nestRound_simps nest_simps run_simps)
  have c: "\<not> inProgress nestGraph" by (simp add: nest_simps run_simps)
  have o: "orderly nestGraph (False, [])"
    unfolding nestGraph_def by (rule registerObject_orderly) (rule orderly_dataflow0)
  have e: "dataflow_set 3 [(''x'', JNum 1)] nestGraph =
     Some (Inr (stateOf (the (dataflow_set 3 [(''x'', JNum 1)] nestGraph))))"
    by (simp add: nest_simps run_simps)
  have n: "nestAtCall =
     (fst nestRound0)\<lparr>trace := trace (fst nestRound0) @
        [Invoked ''n'' (map (readValue (fst nestRound0)) [''x''])]\<rparr>"
    unfolding v by (simp add: nestAtCall_def)
  show ?thesis
    unfolding n
    using set_resolves_after_own_session
            [where st = "fst nestRound0" and p = "[]" and name = "''n''" and fn = nestN
               and ps = "[''x'']" and oc = "Fulfilled (JNum 1)" and bs = "[[(''y'', JNum 1)]]"
               and fuel = 1]
          set_resolves_after_own_session
            [where st = nestGraph and fuel = 3 and s = "(False, [])" and b = "[(''x'', JNum 1)]"
               and st' = "stateOf (the (dataflow_set 3 [(''x'', JNum 1)] nestGraph))"]
          a h f u g r c o e
    by blast
qed

section \<open>C1: which producers a round calls\<close>

fun invokedNames :: "event list \<Rightarrow> name list" where
  "invokedNames [] = []"
| "invokedNames (Invoked name args # es) = name # invokedNames es"
| "invokedNames (e # es) = invokedNames es"

text \<open>\<^verbatim>\<open>nodeToUpstreamNodes.get(name)\<close>, empty when absent.\<close>

definition upstreamOf :: "dataflow \<Rightarrow> name \<Rightarrow> name list" where
  "upstreamOf st name =
     (case map_of (nodeToUpstreamNodes st) name of None \<Rightarrow> [] | Some ps \<Rightarrow> ps)"

lemma invokedNames_append: "invokedNames (xs @ ys) = invokedNames xs @ invokedNames ys"
  by (induction xs rule: invokedNames.induct) auto

lemma invokedNames_enqueued [simp]: "invokedNames (map Enqueued bs) = []"
  by (induction bs) auto

text \<open>
  A node with two upstream names, one of them a node whose producer is rejected:
  \<^verbatim>\<open>register({h: async (x) => { throw "boom" }, n: (x, h) => x})\<close>.
\<close>

definition rejH :: jsfunction where
  "rejH = \<lparr>addr = 0, fname = ''h'', fparams = [''x''],
     body = (\<lambda>args. (Rejected (JStr ''boom''), []))\<rparr>"

definition rejN :: jsfunction where
  "rejN = \<lparr>addr = 1, fname = ''n'', fparams = [''x'', ''h''],
     body = (\<lambda>args. (Fulfilled (hd args), []))\<rparr>"

definition rejGraph :: dataflow where
  "rejGraph = stateOf (registerObject [(''h'', rejH), (''n'', rejN)] dataflow0)"

lemmas rej_simps = rejGraph_def rejH_def rejN_def

text \<open>
  Claim C1 says that a node's producer is called in a batch if and only if one of its
  upstream names has its changed flag set in that batch. With \<^verbatim>\<open>set({x: 1})\<close> on the
  graph above, \<open>x\<close> changes and is an upstream name of \<open>n\<close>, yet \<open>n\<close> is not called: its
  other upstream node \<open>h\<close> was rejected, so the counter of \<open>n\<close> never reached zero.
\<close>

theorem changed_upstream_not_called_counterexample:
  "dataflow_set 2 [(''x'', JNum 1)] rejGraph \<noteq> None \<and>
   \<not> isl (the (dataflow_set 2 [(''x'', JNum 1)] rejGraph)) \<and>
   upstreamOf rejGraph ''n'' = [''x'', ''h''] \<and>
   valueChanged (stateOf (the (dataflow_set 2 [(''x'', JNum 1)] rejGraph))) ''x'' = Some True \<and>
   invokedNames (trace (stateOf (the (dataflow_set 2 [(''x'', JNum 1)] rejGraph)))) = [''h'']"
  by (simp add: rej_simps run_simps upstreamOf_def)

text \<open>
  \<^verbatim>\<open>someArgChanged\<close> as the loop over \<^verbatim>\<open>paramNames\<close> computes it for a name of the
  frontier.
\<close>

definition someArgChanged :: "dataflow \<Rightarrow> name \<Rightarrow> bool" where
  "someArgChanged st name = list_ex (readChanged st) (upstreamOf st name)"

text \<open>\<open>plainNode st n\<close>: no upstream name of \<open>n\<close> is a property of \<^verbatim>\<open>Object.prototype\<close>.\<close>

definition plainNode :: "dataflow \<Rightarrow> name \<Rightarrow> bool" where
  "plainNode st n = list_all (\<lambda>u. \<not> inherited u) (upstreamOf st n)"

lemma someArgChanged_plain:
  "plainNode st n \<Longrightarrow>
     someArgChanged st n = (\<exists>u\<in>set (upstreamOf st n). valueChanged st u = Some True)"
  by (auto simp: someArgChanged_def plainNode_def list_ex_iff list_all_iff readChanged_plain)

lemma launchNode_invoked:
  assumes "launchNode name st = Inr (st', c)"
  shows "invokedNames (trace st') =
           invokedNames (trace st) @ (if someArgChanged st name then [name] else [])"
proof -
  from assms obtain fn ps where
    f: "map_of (nameToFn st) name = Some fn" and p: "map_of (nodeToUpstreamNodes st) name = Some ps"
    by (auto simp: launchNode_def split: option.splits)
  have ch: "someArgChanged st name = list_ex (readChanged st) ps"
    using p by (simp add: someArgChanged_def upstreamOf_def)
  let ?args = "map (readValue st) ps"
  show ?thesis
  proof (cases "list_ex (readChanged st) ps")
    case False
    then have "st' = st" using assms f p by (simp add: launchNode_def Let_def)
    then show ?thesis using False ch by simp
  next
    case True
    then have "st' = fold enqueueBatch (snd (body fn ?args)) (st\<lparr>trace := trace st @ [Invoked name ?args]\<rparr>)"
      using assms f p by (auto simp: launchNode_def Let_def split: outcome.splits)
    then have "trace st' = trace st @ Invoked name ?args # map Enqueued (snd (body fn ?args))"
      using fold_enqueueBatch_queue[of "snd (body fn ?args)" "st\<lparr>trace := trace st @ [Invoked name ?args]\<rparr>"]
      by simp
    then show ?thesis using True ch by (simp add: invokedNames_append)
  qed
qed

lemma launch_invoked:
  "launch dirty st calls = Inr (st', calls') \<Longrightarrow>
     invokedNames (trace st') = invokedNames (trace st) @ filter (someArgChanged st) dirty"
proof (induction dirty arbitrary: st calls)
  case Nil
  then show ?case by simp
next
  case (Cons n dirty)
  from Cons.prems obtain st1 c where
    one: "launchNode n st = Inr (st1, c)" and rest: "launch dirty st1 (calls @ [c]) = Inr (st', calls')"
    by (cases "launchNode n st") auto
  have fr: "sameGraph st st1" "sameStore st st1"
    using launchNode_frame[of st n] one by simp_all
  then have "upstreamOf st1 = upstreamOf st" "readChanged st1 = readChanged st"
    by (auto simp: sameGraph_def sameStore_def upstreamOf_def intro: readChanged_cong)
  then have same: "someArgChanged st1 = someArgChanged st"
    by (auto simp: someArgChanged_def)
  from Cons.IH[OF rest] launchNode_invoked[OF one] show ?case
    unfolding same by simp
qed

text \<open>The calls of a round are those of its loop over the frontier.\<close>

lemma wavefrontRound_trace:
  assumes "launch dirty st [] = Inr (st1, calls)"
  shows "trace (endState (wavefrontRound dirty st)) = trace st1"
proof (cases "list_ex (\<lambda>c. snd (snd c) = Pending) calls")
  case True
  then show ?thesis using assms by (simp add: wavefrontRound_def)
next
  case False
  then have "wavefrontRound dirty st = settle calls st1 []"
    using assms by (simp add: wavefrontRound_def)
  then show ?thesis using settle_frame[of st1 calls "[]"] by (simp add: sameQueue_def)
qed

text \<open>
  A node with an upstream name that \<^verbatim>\<open>Object.prototype\<close> has:
  \<^verbatim>\<open>register({a: (x) => 0, b: (a, valueOf) => a})\<close>. In a second batch
  \<^verbatim>\<open>set({x: 2})\<close> after \<^verbatim>\<open>set({x: 1})\<close> the value of \<open>a\<close> stays 0 and no flag of
  \<open>valueOf\<close> is written, yet \<open>b\<close> is called: \<^verbatim>\<open>dataflow.valueChanged["valueOf"]\<close> reads
  the inherited function. The amended claim below leaves such nodes out.
\<close>

definition protoA :: jsfunction where
  "protoA = \<lparr>addr = 0, fname = ''a'', fparams = [''x''],
     body = (\<lambda>args. (Fulfilled (JNum 0), []))\<rparr>"

definition protoB :: jsfunction where
  "protoB = \<lparr>addr = 1, fname = ''b'', fparams = [''a'', ''valueOf''],
     body = (\<lambda>args. (Fulfilled (hd args), []))\<rparr>"

definition protoGraph :: dataflow where
  "protoGraph = stateOf (registerObject [(''a'', protoA), (''b'', protoB)] dataflow0)"

definition protoSettled :: dataflow where
  "protoSettled = stateOf (the (dataflow_set 2 [(''x'', JNum 1)] protoGraph))"

lemmas proto_simps = protoSettled_def protoGraph_def protoA_def protoB_def

lemma inherited_upstream_name_called:
  "\<not> inProgress protoSettled \<and>
   \<not> isl (the (dataflow_set 2 [(''x'', JNum 2)] protoSettled)) \<and>
   valueChanged (stateOf (the (dataflow_set 2 [(''x'', JNum 2)] protoSettled))) ''a'' = Some False \<and>
   valueChanged (stateOf (the (dataflow_set 2 [(''x'', JNum 2)] protoSettled))) ''valueOf'' = None \<and>
   drop (length (trace protoSettled))
     (trace (stateOf (the (dataflow_set 2 [(''x'', JNum 2)] protoSettled)))) =
     [Enqueued [(''x'', JNum 2)], Dequeued [(''x'', JNum 2)],
      Invoked ''a'' [JNum 2], Invoked ''b'' [JNum 0, JFunction 109], Drained]"
  by (simp add: proto_simps run_simps)

text \<open>
  Claim C1, amended. In a round of a batch's wavefront whose loop over the frontier
  runs to its end (no call of a producer throws synchronously, the case of C5), the
  producers called are names of the round's frontier, in the frontier's order, and a
  name of the frontier none of whose upstream names is a property of
  \<^verbatim>\<open>Object.prototype\<close> is called exactly when one of its upstream names has its changed
  flag set when the round begins. A node that does not enter a frontier, as \<open>n\<close> above,
  is not called, whatever its upstream names did.
\<close>

theorem producers_called_in_round:
  assumes "launch dirty st [] = Inr (st1, calls)"
  shows "\<exists>called.
           invokedNames (trace (endState (wavefrontRound dirty st))) =
             invokedNames (trace st) @ called \<and>
           called = filter (\<lambda>n. n \<in> set called) dirty \<and>
           (\<forall>n\<in>set dirty. plainNode st n \<longrightarrow>
              (n \<in> set called) = (\<exists>u\<in>set (upstreamOf st n). valueChanged st u = Some True))"
proof -
  let ?called = "filter (someArgChanged st) dirty"
  have t: "invokedNames (trace (endState (wavefrontRound dirty st))) =
             invokedNames (trace st) @ ?called"
    using wavefrontRound_trace[OF assms] launch_invoked[OF assms] by simp
  have f: "?called = filter (\<lambda>n. n \<in> set ?called) dirty"
    by (rule filter_cong) simp_all
  have p: "\<forall>n\<in>set dirty. plainNode st n \<longrightarrow>
              (n \<in> set ?called) = (\<exists>u\<in>set (upstreamOf st n). valueChanged st u = Some True)"
    by (simp add: someArgChanged_plain)
  from t f p show ?thesis by blast
qed

theorem producers_called_in_round_witness:
  "snd readmeRound0 = [''a'', ''c''] \<and> snd readmeRound1 = [''b''] \<and>
   launch (snd readmeRound1) (fst readmeRound1) [] =
     Inr (endState (launch (snd readmeRound1) (fst readmeRound1) []),
          [(''b'', [JNum 3, JNum 6], Fulfilled (JNum 18))]) \<and>
   plainNode (fst readmeRound1) ''b'' \<and>
   valueChanged (fst readmeRound1) ''a'' = Some True \<and>
   invokedNames (trace (fst readmeRound1)) = [''a'', ''c''] \<and>
   invokedNames (trace (endState (wavefrontRound (snd readmeRound1) (fst readmeRound1)))) =
     [''a'', ''c'', ''b''] \<and>
   (\<exists>called.
      invokedNames (trace (endState (wavefrontRound (snd readmeRound1) (fst readmeRound1)))) =
        invokedNames (trace (fst readmeRound1)) @ called \<and>
      called = filter (\<lambda>n. n \<in> set called) (snd readmeRound1) \<and>
      (\<forall>n\<in>set (snd readmeRound1). plainNode (fst readmeRound1) n \<longrightarrow>
         (n \<in> set called) =
         (\<exists>u\<in>set (upstreamOf (fst readmeRound1) n). valueChanged (fst readmeRound1) u = Some True)))"
proof -
  have f: "snd readmeRound0 = [''a'', ''c'']" "snd readmeRound1 = [''b'']"
    by (simp_all add: readmeRound_simps readme_simps run_simps)
  have e: "launch (snd readmeRound1) (fst readmeRound1) [] =
     Inr (endState (launch (snd readmeRound1) (fst readmeRound1) []),
          [(''b'', [JNum 3, JNum 6], Fulfilled (JNum 18))])"
    by (simp add: readmeRound_simps readme_simps run_simps)
  have p: "plainNode (fst readmeRound1) ''b''"
    by (simp add: plainNode_def upstreamOf_def readmeRound_simps readme_simps run_simps)
  have c: "valueChanged (fst readmeRound1) ''a'' = Some True"
    by (simp add: readmeRound_simps readme_simps run_simps)
  have i0: "invokedNames (trace (fst readmeRound1)) = [''a'', ''c'']"
    by (simp add: readmeRound_simps readme_simps run_simps)
  have i: "invokedNames (trace (endState (wavefrontRound (snd readmeRound1) (fst readmeRound1)))) =
     [''a'', ''c'', ''b'']"
    by (simp add: readmeRound_simps readme_simps run_simps)
  from producers_called_in_round[OF e] f e p c i0 i show ?thesis by simp
qed

section \<open>C5: a producer that fails\<close>

text \<open>
  A plain function that throws, registered as the README registers functions:
  \<^verbatim>\<open>register({a: (x) => { throw "boom" }})\<close>.
\<close>

definition throwA :: jsfunction where
  "throwA = \<lparr>addr = 0, fname = ''a'', fparams = [''x''],
     body = (\<lambda>args. (Throws (JStr ''boom''), []))\<rparr>"

definition throwGraph :: dataflow where
  "throwGraph = stateOf (registerObject [(''a'', throwA)] dataflow0)"

text \<open>
  Claim C5 against the code: \<^verbatim>\<open>set({x: 1})\<close> on this graph. The call
  \<^verbatim>\<open>fn(...args)\<close> throws inside \<^verbatim>\<open>set\<close>, before \<^verbatim>\<open>Promise.allSettled\<close>: the promise of
  \<^verbatim>\<open>set\<close> is rejected, no error record is written, and \<^verbatim>\<open>inProgress\<close> stays true.
\<close>

theorem sync_throw_escapes_set:
  "dataflow_set 1 [(''x'', JNum 1)] throwGraph \<noteq> None \<and>
   abortOf (the (dataflow_set 1 [(''x'', JNum 1)] throwGraph)) = Some (ProducerThrew (JStr ''boom'')) \<and>
   errors (stateOf (the (dataflow_set 1 [(''x'', JNum 1)] throwGraph))) = [] \<and>
   inProgress (stateOf (the (dataflow_set 1 [(''x'', JNum 1)] throwGraph)))"
  by (simp add: throwGraph_def throwA_def run_simps)

text \<open>
  The path the code does take for a rejected promise: one record with \<^verbatim>\<open>fn.name\<close>, the
  arguments and the reason for each rejected call of the round, \<open>setNodeValue\<close> not being
  called for it, and the loop going on to the results after it.
\<close>

fun rejections :: "call list \<Rightarrow> errInfo list" where
  "rejections [] = []"
| "rejections ((fnName, args, Rejected why) # rest) =
     \<lparr>functionName = fnName, functionParams = args, reason = why\<rparr> # rejections rest"
| "rejections (c # rest) = rejections rest"

lemma settle_rejected:
  "settle ((fnName, args, Rejected why) # rest) st dirty =
     settle rest
       (st\<lparr>errors := errors st @
              [\<lparr>functionName = fnName, functionParams = args, reason = why\<rparr>]\<rparr>) dirty"
  by simp

lemma settle_errors:
  "settle calls st dirty = Inr (st', dirty') \<Longrightarrow> errors st' = errors st @ rejections calls"
proof (induction calls arbitrary: st dirty)
  case Nil
  then show ?case by simp
next
  case (Cons c calls)
  obtain fnName args oc where c: "c = (fnName, args, oc)" by (cases c) auto
  show ?case
  proof (cases oc)
    case (Fulfilled v)
    from Cons.prems c Fulfilled obtain st1 d1 where
      s1: "setNodeValue fnName v dirty st = Inr (st1, d1)" and
      s2: "settle calls st1 d1 = Inr (st', dirty')"
      by (auto split: sum.splits)
    have "errors st1 = errors st" using setNodeValue_frame[of st fnName v dirty] s1 by simp
    then show ?thesis using Cons.IH[OF s2] c Fulfilled by simp
  next
    case (Rejected why)
    then show ?thesis using Cons.prems c Cons.IH by simp
  next
    case (Throws why)
    then show ?thesis using Cons.prems c Cons.IH by simp
  next
    case Pending
    then show ?thesis using Cons.prems c Cons.IH by simp
  qed
qed

text \<open>The run of \<^verbatim>\<open>set({x: 1})\<close> on the graph with the rejected producer \<open>h\<close>.\<close>

lemma rejected_producer_recorded:
  "\<not> isl (the (dataflow_set 2 [(''x'', JNum 1)] rejGraph)) \<and>
   errors (stateOf (the (dataflow_set 2 [(''x'', JNum 1)] rejGraph))) =
     [\<lparr>functionName = ''h'', functionParams = [JNum 1], reason = JStr ''boom''\<rparr>] \<and>
   value' (stateOf (the (dataflow_set 2 [(''x'', JNum 1)] rejGraph))) ''n'' = None"
  by (simp add: rej_simps run_simps)

section \<open>C7: setting a name to the value it has\<close>

text \<open>
  A function registered under a key that is not its own name:
  \<^verbatim>\<open>register({a: function foo(x) { return x + 1 }, b: (x) => x, c: (foo, b) => foo + b})\<close>.
\<close>

definition aliasA :: jsfunction where
  "aliasA = \<lparr>addr = 0, fname = ''foo'', fparams = [''x''],
     body = (\<lambda>args. case args of [JNum x] \<Rightarrow> (Fulfilled (JNum (x + 1)), [])
                    | _ \<Rightarrow> (Fulfilled JUndefined, []))\<rparr>"

definition aliasB :: jsfunction where
  "aliasB = \<lparr>addr = 1, fname = ''b'', fparams = [''x''],
     body = (\<lambda>args. (Fulfilled (hd args), []))\<rparr>"

definition aliasC :: jsfunction where
  "aliasC = \<lparr>addr = 2, fname = ''c'', fparams = [''foo'', ''b''],
     body = (\<lambda>args. case args of [JNum f, JNum b] \<Rightarrow> (Fulfilled (JNum (f + b)), [])
                    | _ \<Rightarrow> (Fulfilled JUndefined, []))\<rparr>"

definition aliasGraph :: dataflow where
  "aliasGraph =
     stateOf (registerObject [(''a'', aliasA), (''b'', aliasB), (''c'', aliasC)] dataflow0)"

text \<open>The state after \<^verbatim>\<open>await dataflow.set({x: 1})\<close> on it.\<close>

definition aliasSettled :: dataflow where
  "aliasSettled = stateOf (the (dataflow_set 2 [(''x'', JNum 1)] aliasGraph))"

lemmas alias_simps = aliasSettled_def aliasGraph_def aliasA_def aliasB_def aliasC_def

text \<open>
  Claim C7 against the code: a second \<^verbatim>\<open>set({x: 1})\<close>. The value is the cached one,
  but the wavefront stores the reused value of node \<open>a\<close>, which is \<^verbatim>\<open>undefined\<close>, under
  \<^verbatim>\<open>fn.name\<close>, that is \<open>foo\<close>: the cache of \<open>foo\<close> changes, and the producer \<open>c\<close> is called.
\<close>

theorem unchanged_input_calls_producer:
  "\<not> inProgress aliasSettled \<and>
   isEqual (readValue aliasSettled ''x'') (JNum 1) \<and>
   readValue aliasSettled ''foo'' = JNum 2 \<and>
   dataflow_set 2 [(''x'', JNum 1)] aliasSettled \<noteq> None \<and>
   \<not> isl (the (dataflow_set 2 [(''x'', JNum 1)] aliasSettled)) \<and>
   readValue (stateOf (the (dataflow_set 2 [(''x'', JNum 1)] aliasSettled))) ''foo'' = JUndefined \<and>
   drop (length (trace aliasSettled))
     (trace (stateOf (the (dataflow_set 2 [(''x'', JNum 1)] aliasSettled)))) =
     [Enqueued [(''x'', JNum 1)], Dequeued [(''x'', JNum 1)],
      Invoked ''c'' [JUndefined, JNum 1], Drained]"
  by (simp add: alias_simps run_simps)

subsection \<open>Where the claim does hold\<close>

text \<open>
  \<open>namesOk\<close>: every function is registered under its own name, as \<^verbatim>\<open>register(f, g)\<close>
  does and as \<^verbatim>\<open>register({a: (x) => ...})\<close> does, the arrow function taking the name of
  its key. \<open>plainGraph\<close>: no upstream name of a node is a property of
  \<^verbatim>\<open>Object.prototype\<close>, whose flag would read as set without having been written.
  \<open>quiet\<close>: no changed flag is set.
\<close>

definition namesOk :: "dataflow \<Rightarrow> bool" where
  "namesOk st = list_all (\<lambda>entry. fname (snd entry) = fst entry) (nameToFn st)"

definition plainGraph :: "dataflow \<Rightarrow> bool" where
  "plainGraph st =
     list_all (\<lambda>entry. list_all (\<lambda>u. \<not> inherited u) (snd entry)) (nodeToUpstreamNodes st)"

definition quiet :: "dataflow \<Rightarrow> bool" where
  "quiet st = (\<forall>n. valueChanged st n \<noteq> Some True)"

text \<open>A call entry that reuses the cached value of its own name.\<close>

definition reuses :: "dataflow \<Rightarrow> call \<Rightarrow> bool" where
  "reuses st c = (snd (snd c) = Fulfilled (readValue st (fst c)))"

lemma namesOk_lookup: "namesOk st \<Longrightarrow> map_of (nameToFn st) k = Some f \<Longrightarrow> fname f = k"
  by (auto simp: namesOk_def list_all_iff dest!: map_of_SomeD)

lemma plainGraph_lookup:
  "plainGraph st \<Longrightarrow> map_of (nodeToUpstreamNodes st) k = Some ps \<Longrightarrow> u \<in> set ps \<Longrightarrow>
     \<not> inherited u"
  by (auto simp: plainGraph_def list_all_iff dest!: map_of_SomeD)

lemma launchNode_quiet:
  assumes "quiet st" "namesOk st" "plainGraph st"
  shows "endState (launchNode name st) = st \<and>
         (\<forall>c. launchNode name st = Inr (st, c) \<longrightarrow> reuses st c)"
proof (cases "map_of (nameToFn st) name")
  case None
  then show ?thesis by (simp add: launchNode_def)
next
  case (Some fn)
  note f = Some
  show ?thesis
  proof (cases "map_of (nodeToUpstreamNodes st) name")
    case None
    then show ?thesis using f by (simp add: launchNode_def)
  next
    case (Some ps)
    have "\<not> readChanged st u" if "u \<in> set ps" for u
      using assms(1) plainGraph_lookup[OF assms(3) Some that]
      by (simp add: readChanged_plain quiet_def)
    then have "\<not> list_ex (readChanged st) ps" by (simp add: list_ex_iff)
    then have "launchNode name st =
        Inr (st, (fname fn, map (readValue st) ps, Fulfilled (readValue st name)))"
      using f Some by (simp add: launchNode_def Let_def)
    then show ?thesis using namesOk_lookup[OF assms(2) f] by (simp add: reuses_def)
  qed
qed

lemma launch_quiet:
  assumes "quiet st" "namesOk st" "plainGraph st"
  shows "list_all (reuses st) calls \<Longrightarrow>
         endState (launch names st calls) = st \<and>
         (\<forall>cs. launch names st calls = Inr (st, cs) \<longrightarrow> list_all (reuses st) cs)"
proof (induction names arbitrary: calls)
  case Nil
  then show ?case by simp
next
  case (Cons n names)
  note q = launchNode_quiet[OF assms, of n]
  show ?case
  proof (cases "launchNode n st")
    case (Inl e)
    then show ?thesis using q by (cases e) simp
  next
    case (Inr r)
    obtain st1 c where r: "r = (st1, c)" by (cases r)
    have st1: "st1 = st" using q Inr r by simp
    have c: "reuses st c" using q Inr r st1 by blast
    have eq: "launch (n # names) st calls = launch names st (calls @ [c])"
      using Inr r st1 by simp
    have "list_all (reuses st) (calls @ [c])" using Cons.prems c by simp
    from Cons.IH[OF this] show ?thesis unfolding eq .
  qed
qed

lemma storeValue_same:
  "isEqual (readValue st name) v \<Longrightarrow>
     value' (storeValue name v st) = value' st \<and>
     valueChanged (storeValue name v st) = (valueChanged st)(name \<mapsto> False)"
  by (simp add: storeValue_def)

lemma readValue_cong: "value' st' = value' st \<Longrightarrow> readValue st' = readValue st"
  by (rule ext) (simp add: readValue_def)

lemma settle_quiet:
  "quiet st \<Longrightarrow> list_all (reuses st) calls \<Longrightarrow>
     quiet (endState (settle calls st dirty)) \<and>
     value' (endState (settle calls st dirty)) = value' st \<and>
     errors (endState (settle calls st dirty)) = errors st"
proof (induction calls arbitrary: st dirty)
  case Nil
  then show ?case by simp
next
  case (Cons c calls)
  obtain n args oc where c: "c = (n, args, oc)" by (cases c) auto
  have rest: "list_all (reuses st) calls" and rc: "reuses st c"
    using Cons.prems(2) by simp_all
  have oc: "oc = Fulfilled (readValue st n)" using rc c by (simp add: reuses_def)
  have eqv: "isEqual (readValue st n) (readValue st n)" by (simp add: isEqual_def)
  note fr = setNodeValue_frame[of st n "readValue st n" dirty]
  note sv = storeValue_same[OF eqv]
  let ?r = "setNodeValue n (readValue st n) dirty st"
  have v1: "value' (endState ?r) = value' st" using fr sv by simp
  have q1: "quiet (endState ?r)" using fr sv Cons.prems(1) by (simp add: quiet_def)
  have e1: "errors (endState ?r) = errors st" using fr by simp
  show ?case
  proof (cases ?r)
    case (Inl e)
    then have "settle (c # calls) st dirty = Inl e" using c oc by simp
    then show ?thesis using v1 q1 e1 Inl by (cases e) simp
  next
    case (Inr r)
    obtain st1 d1 where r: "r = (st1, d1)" by (cases r)
    have eq: "settle (c # calls) st dirty = settle calls st1 d1" using c oc Inr r by simp
    have v: "value' st1 = value' st" and q: "quiet st1" and e: "errors st1 = errors st"
      using v1 q1 e1 Inr r by simp_all
    have "reuses st1 = reuses st"
      using readValue_cong[OF v] by (intro ext) (simp add: reuses_def)
    then have "list_all (reuses st1) calls" using rest by simp
    from Cons.IH[OF q this, of d1] show ?thesis unfolding eq using v e by simp
  qed
qed

lemma namesOk_sameGraph: "sameGraph st st' \<Longrightarrow> namesOk st' = namesOk st"
  by (simp add: sameGraph_def namesOk_def)

lemma plainGraph_sameGraph: "sameGraph st st' \<Longrightarrow> plainGraph st' = plainGraph st"
  by (simp add: sameGraph_def plainGraph_def)

lemma wavefrontRound_quiet:
  assumes "quiet st" "namesOk st" "plainGraph st"
  shows "quiet (endState (wavefrontRound dirty st)) \<and>
         value' (endState (wavefrontRound dirty st)) = value' st \<and>
         errors (endState (wavefrontRound dirty st)) = errors st \<and>
         sameQueue st (endState (wavefrontRound dirty st))"
proof -
  have l: "endState (launch dirty st []) = st \<and>
         (\<forall>cs. launch dirty st [] = Inr (st, cs) \<longrightarrow> list_all (reuses st) cs)"
    using launch_quiet[OF assms, of "[]" dirty] by simp
  show ?thesis
  proof (cases "launch dirty st []")
    case (Inl e)
    then show ?thesis using l assms(1) by (cases e) (simp add: wavefrontRound_def)
  next
    case (Inr r)
    obtain st1 calls where r: "r = (st1, calls)" by (cases r)
    have st1: "st1 = st" using l Inr r by simp
    have cs: "list_all (reuses st) calls" using l Inr r st1 by blast
    have np: "\<not> list_ex (\<lambda>c. snd (snd c) = Pending) calls"
      using cs by (auto simp: list_ex_iff list_all_iff reuses_def)
    have eq: "wavefrontRound dirty st = settle calls st []"
      using Inr r st1 np by (simp add: wavefrontRound_def)
    show ?thesis unfolding eq
      using settle_quiet[OF assms(1) cs, of "[]"] settle_frame[of st calls "[]"] by simp
  qed
qed

lemma wavefront_quiet:
  "quiet st \<Longrightarrow> namesOk st \<Longrightarrow> plainGraph st \<Longrightarrow>
     value' (stateOf (wavefront dirty st)) = value' st \<and>
     errors (stateOf (wavefront dirty st)) = errors st \<and>
     sameQueue st (stateOf (wavefront dirty st))"
proof (induction dirty st rule: wavefront.induct)
  case (1 dirty st)
  show ?case
  proof (cases "dirty = []")
    case True
    then show ?thesis by (simp add: wavefront.simps)
  next
    case False
    note w = wavefrontRound_quiet[OF "1.prems", of dirty]
    show ?thesis
    proof (cases "wavefrontRound dirty st")
      case (Inl e)
      then show ?thesis using False w by (cases e) (simp add: wavefront.simps[of dirty])
    next
      case (Inr r)
      have eq: "wavefront dirty st = wavefront (snd r) (fst r)"
        using False Inr by (simp add: wavefront.simps[of dirty])
      have r: "quiet (fst r)" "value' (fst r) = value' st" "errors (fst r) = errors st"
        "sameQueue st (fst r)"
        using w Inr by (cases r; simp)+
      have "sameGraph st (fst r)" using wavefrontRound_frame[of st dirty] Inr by (cases r) simp
      then have n: "namesOk (fst r)" "plainGraph (fst r)"
        using "1.prems"(2,3) by (simp_all add: namesOk_sameGraph plainGraph_sameGraph)
      from "1.IH"[OF False Inr r(1) n] r show ?thesis
        unfolding eq by (auto intro: sameQueue_trans)
    qed
  qed
qed

text \<open>
  With every function registered under its own name and no upstream name inherited
  from \<^verbatim>\<open>Object.prototype\<close>, claim C7 holds of the code: a
  batch \<^verbatim>\<open>{x: v}\<close> whose value deep-equals the cached one calls no producer and leaves
  every cached value, and the error list, as it was; and a call of \<^verbatim>\<open>set\<close> with it,
  made in an orderly state with no session active, ends after that one batch.
\<close>

lemma unchanged_input_batch:
  assumes "namesOk st" "dequeue (updateBatches st) = Inr ([(x, v)], q')"
    "isEqual (readValue st x) v" "plainGraph st"
  shows "value' (stateOf (processBatch st)) = value' st \<and>
         errors (stateOf (processBatch st)) = errors st \<and>
         invokedNames (trace (stateOf (processBatch st))) = invokedNames (trace st) \<and>
         updateBatches (stateOf (processBatch st)) = q'"
proof -
  let ?b = "[(x, v)]"
  have bb: "invokedNames (trace (beginBatch ?b q' st)) = invokedNames (trace st)"
    by (simp add: invokedNames_append)
  have key: "value' s = value' st \<and> errors s = errors st \<and>
             invokedNames (trace s) = invokedNames (trace st) \<and> updateBatches s = q' \<and>
             (\<forall>dirty. value' (stateOf (wavefront dirty s)) = value' st \<and>
                errors (stateOf (wavefront dirty s)) = errors st \<and>
                invokedNames (trace (stateOf (wavefront dirty s))) = invokedNames (trace st) \<and>
                updateBatches (stateOf (wavefront dirty s)) = q')"
    if s: "s = endState (setBatchValues ?b (counted counts (beginBatch ?b q' st)) [])" for s counts
  proof -
    let ?c = "counted counts (beginBatch ?b q' st)"
    have rv: "readValue ?c = readValue st" by (rule readValue_cong) simp
    have eqv: "isEqual (readValue ?c x) v" using assms(3) rv by simp
    note fr = setNodeValue_frame[of ?c x v "[]"]
    note sv = storeValue_same[OF eqv]
    have sfr: "sameGraph ?c s" "sameQueue ?c s" "errors s = errors ?c"
      using setBatchValues_frame[of ?c ?b "[]"] s by simp_all
    have vq: "value' s = value' st \<and> quiet s"
    proof (cases "promiseGuard x v")
      case (Some e)
      then show ?thesis using s by (simp add: quiet_def)
    next
      case None
      then have "s = endState (setNodeValue x v [] ?c)"
        using s by (cases "setNodeValue x v [] ?c") auto
      then show ?thesis using fr sv by (simp add: quiet_def)
    qed
    have n: "namesOk s" "plainGraph s"
      using sfr(1) assms(1,4) by (simp_all add: sameGraph_def namesOk_def plainGraph_def)
    have base: "value' s = value' st" "errors s = errors st"
      "invokedNames (trace s) = invokedNames (trace st)" "updateBatches s = q'"
      using vq sfr bb by (simp_all add: sameQueue_def)
    have "value' (stateOf (wavefront dirty s)) = value' st \<and>
          errors (stateOf (wavefront dirty s)) = errors st \<and>
          invokedNames (trace (stateOf (wavefront dirty s))) = invokedNames (trace st) \<and>
          updateBatches (stateOf (wavefront dirty s)) = q'" for dirty
      using wavefront_quiet[of s dirty] vq n base by (simp add: sameQueue_def)
    then show ?thesis using base by simp
  qed
  show ?thesis
  proof (cases st rule: processBatch_cases)
    case (Empty e)
    then show ?thesis using assms(2) by simp
  next
    case (Visit b q'' e c)
    then show ?thesis using assms(2) bb by simp
  next
    case (Values b q'' counts e s)
    then have "s = endState (setBatchValues ?b (counted counts (beginBatch ?b q' st)) [])"
      using assms(2) by simp
    from key[OF this] Values(4) show ?thesis by simp
  next
    case (Wave b q'' counts s dirty e s')
    then have "s = endState (setBatchValues ?b (counted counts (beginBatch ?b q' st)) [])"
      using assms(2) by simp
    from key[OF this] Wave(4,5) show ?thesis by (metis stateOf_simps(1))
  next
    case (Done b q'' counts s dirty s')
    then have "s = endState (setBatchValues ?b (counted counts (beginBatch ?b q' st)) [])"
      using assms(2) by simp
    from key[OF this] Done(4,5) show ?thesis
      by (auto simp: invokedNames_append dest: spec[of _ dirty])
  qed
qed

lemma unchanged_input_set:
  assumes "namesOk st" "\<not> inProgress st" "orderly st s" "isEqual (readValue st x) v"
    "plainGraph st"
  shows "\<exists>r. dataflow_set (Suc (Suc n)) [(x, v)] st = Some r \<and>
             value' (stateOf r) = value' st \<and>
             invokedNames (trace (stateOf r)) = invokedNames (trace st)"
proof -
  let ?b = "[(x, v)]"
  let ?st1 = "(enqueueBatch ?b st)\<lparr>inProgress := True, errors := []\<rparr>"
  have s: "s = (False, [])" using assms(2,3) by (simp add: orderly_def)
  have h: "holds (updateBatches ?st1) [?b]"
    using assms(3) s holds_enqueue[of "updateBatches st" "[]" ?b]
    by (simp add: orderly_def enqueueBatch_def)
  then have ne: "\<not> isEmpty (updateBatches ?st1)" using holds_empty by blast
  from holds_dequeue[OF h ne] obtain q' where
    d: "dequeue (updateBatches ?st1) = Inr (?b, q')" and hq: "holds q' []"
    by auto
  have n1: "namesOk ?st1" using assms(1) by (simp add: namesOk_def)
  have p1: "plainGraph ?st1" using assms(5) by (simp add: plainGraph_def enqueueBatch_def)
  have rv: "readValue ?st1 = readValue st" by (rule readValue_cong) simp
  have eqv: "isEqual (readValue ?st1 x) v" using assms(4) rv by simp
  note u = unchanged_input_batch[OF n1 d eqv p1]
  have t1: "invokedNames (trace ?st1) = invokedNames (trace st)"
    by (simp add: enqueueBatch_def invokedNames_append)
  have v1: "value' ?st1 = value' st" by simp
  show ?thesis
  proof (cases "processBatch ?st1")
    case (Inl e)
    then have "dataflow_set (Suc (Suc n)) ?b st = Some (Inl e)"
      using assms(2) ne by (simp add: dataflow_set_idle)
    then show ?thesis using u Inl t1 v1 by (cases e) simp
  next
    case (Inr st2)
    then have "updateBatches st2 = q'" using u by simp
    then have "isEmpty (updateBatches st2)" using hq holds_empty by blast
    then have "dataflow_set (Suc (Suc n)) ?b st = Some (Inr (st2\<lparr>inProgress := False\<rparr>))"
      using assms(2) ne Inr by (simp add: dataflow_set_idle)
    then show ?thesis using u Inr t1 v1 by simp
  qed
qed

end
